theory Spec2Isabelle
  imports Complex_Main "HOL-Library.Sublist"
begin

section \<open>JavaScript values used by the statement parser\<close>

text \<open>
  A JavaScript string is a sequence of UTF-16 code units; a code unit is modelled as a
  natural number (below 65536 for every string the program can hold). \<open>js\<close> turns an
  ASCII literal into such a string.
\<close>

type_synonym jschar = nat
type_synonym jsstring = "jschar list"

definition js :: "string \<Rightarrow> jsstring" where
  "js s = map of_char s"

abbreviation (input) TAB :: jschar where "TAB \<equiv> 9"
abbreviation (input) NEWLINE :: jschar where "NEWLINE \<equiv> 10"
abbreviation (input) SPACE :: jschar where "SPACE \<equiv> 32"
abbreviation (input) DQUOTE :: jschar where "DQUOTE \<equiv> 34"
abbreviation (input) SQUOTE :: jschar where "SQUOTE \<equiv> 39"
abbreviation (input) DOLLAR :: jschar where "DOLLAR \<equiv> 36"
abbreviation (input) PLUS :: jschar where "PLUS \<equiv> 43"
abbreviation (input) COMMA :: jschar where "COMMA \<equiv> 44"
abbreviation (input) MINUS :: jschar where "MINUS \<equiv> 45"
abbreviation (input) DOT :: jschar where "DOT \<equiv> 46"
abbreviation (input) SLASH :: jschar where "SLASH \<equiv> 47"
abbreviation (input) ZERO :: jschar where "ZERO \<equiv> 48"
abbreviation (input) RUPEE :: jschar where "RUPEE \<equiv> 8377"

text \<open>
  White space as \<open>String.prototype.trim\<close>, \<open>parseFloat\<close> and the regular expression
  class \<open>\s\<close> understand it: the WhiteSpace and LineTerminator code points of ECMAScript
  (TAB, LF, VT, FF, CR, SP, NBSP, U+1680, U+2000..U+200A, U+2028, U+2029, U+202F, U+205F,
  U+3000, U+FEFF).
\<close>

definition isWhiteSpace :: "jschar \<Rightarrow> bool" where
  "isWhiteSpace c =
     ((9 \<le> c \<and> c \<le> 13) \<or> c = 32 \<or> c = 160 \<or> c = 5760 \<or> (8192 \<le> c \<and> c \<le> 8202) \<or>
      c = 8232 \<or> c = 8233 \<or> c = 8239 \<or> c = 8287 \<or> c = 12288 \<or> c = 65279)"

text \<open>The classes \<open>\d\<close>, \<open>\w\<close>, \<open>[a-z]\<close> and \<open>[A-Z]\<close> of a regular expression without the u flag.\<close>

definition isDigit :: "jschar \<Rightarrow> bool" where
  "isDigit c = (48 \<le> c \<and> c \<le> 57)"

definition isLower :: "jschar \<Rightarrow> bool" where
  "isLower c = (97 \<le> c \<and> c \<le> 122)"

definition isUpper :: "jschar \<Rightarrow> bool" where
  "isUpper c = (65 \<le> c \<and> c \<le> 90)"

definition isWord :: "jschar \<Rightarrow> bool" where
  "isWord c = (isLower c \<or> isUpper c \<or> isDigit c \<or> c = 95)"

text \<open>\<open>String.prototype.trim\<close>.\<close>

definition trim :: "jsstring \<Rightarrow> jsstring" where
  "trim s = rev (dropWhile isWhiteSpace (rev (dropWhile isWhiteSpace s)))"

text \<open>
  \<open>String.prototype.toLowerCase\<close>, one code unit after the other. A..Z go to a..z. Of the
  code units outside the Basic Latin block, the Kelvin sign U+212A goes to \<open>k\<close> and U+0130
  (capital I with a dot above) to \<open>i\<close> followed by U+0307: they are the only ones whose
  lower case holds a character of the Basic Latin block. Every other code unit stands for
  itself. Where Unicode gives such a code unit another lower case, that lies outside the
  Basic Latin block as well, and it is white space only when the code unit is (white space
  has no case); the program only looks for Basic Latin words in a lower-cased text, tests
  its characters for a..z and trims it, and never returns it, so no run of the program
  tells the two apart.
\<close>

definition lowerUnits :: "jschar \<Rightarrow> jsstring" where
  "lowerUnits c =
     (if isUpper c then [c + 32]
      else if c = 8490 then [107]
      else if c = 304 then [105, 775]
      else [c])"

definition toLowerCase :: "jsstring \<Rightarrow> jsstring" where
  "toLowerCase s = concat (map lowerUnits s)"

text \<open>\<open>String.prototype.includes\<close>: the second string occurs in the first as a contiguous run.\<close>

primrec str_includes :: "jsstring \<Rightarrow> jsstring \<Rightarrow> bool" where
  "str_includes [] sub = (sub = [])"
| "str_includes (c # cs) sub = (prefix sub (c # cs) \<or> str_includes cs sub)"

text \<open>\<open>String.prototype.padStart(n, '0')\<close>.\<close>

definition padStart0 :: "nat \<Rightarrow> jsstring \<Rightarrow> jsstring" where
  "padStart0 n s = replicate (n - length s) ZERO @ s"

text \<open>
  \<open>String.prototype.split(sep)\<close> for a separator of one character: the pieces between
  the separators, at least one piece.
\<close>

fun split_loop :: "jschar \<Rightarrow> jsstring \<Rightarrow> jsstring \<Rightarrow> jsstring list" where
  "split_loop sep current [] = [current]"
| "split_loop sep current (c # cs) =
     (if c = sep then current # split_loop sep [] cs else split_loop sep (current @ [c]) cs)"

definition split_on :: "jschar \<Rightarrow> jsstring \<Rightarrow> jsstring list" where
  "split_on sep s = split_loop sep [] s"

text \<open>The decimal digits of a natural number, as template literals print it.\<close>

fun decimal :: "nat \<Rightarrow> jsstring" where
  "decimal n = (if n < 10 then [48 + n] else decimal (n div 10) @ [48 + n mod 10])"

declare decimal.simps [simp del]

text \<open>The value of a run of decimal digits, as \<open>parseInt\<close> and \<open>parseFloat\<close> read it.\<close>

definition digitsValue :: "jsstring \<Rightarrow> nat" where
  "digitsValue ds = foldl (\<lambda>acc d. 10 * acc + (d - 48)) 0 ds"

subsection \<open>Numbers\<close>

text \<open>
  A JavaScript number as the parser can produce it. \<open>Num q\<close> is the finite double nearest
  to the rational \<open>q\<close>: the rounding of the 53 bits and the sign of zero are not modelled,
  the limits of the range are (\<open>numberValue\<close> below).
\<close>

datatype jsnum = NaN | Num rat | PosInfinity | NegInfinity

fun negate :: "jsnum \<Rightarrow> jsnum" where
  "negate NaN = NaN"
| "negate (Num q) = Num (- q)"
| "negate PosInfinity = NegInfinity"
| "negate NegInfinity = PosInfinity"

text \<open>The comparisons \<open>x > 0\<close> and \<open>x >= 0\<close>; both are false on NaN.\<close>

fun positive :: "jsnum \<Rightarrow> bool" where
  "positive NaN = False"
| "positive (Num q) = (0 < q)"
| "positive PosInfinity = True"
| "positive NegInfinity = False"

fun nonNegative :: "jsnum \<Rightarrow> bool" where
  "nonNegative NaN = False"
| "nonNegative (Num q) = (0 \<le> q)"
| "nonNegative PosInfinity = True"
| "nonNegative NegInfinity = False"

text \<open>
  The Number value of a mathematical value that is not negative, at the two ends of the
  range of a double under round-to-nearest, ties to even: from \<open>2^1024 - 2^970\<close>, half a
  step above the largest double, the value is \<open>Infinity\<close>; up to \<open>2^-1075\<close>, half the
  smallest double, it is 0.
\<close>

definition numberValue :: "rat \<Rightarrow> jsnum" where
  "numberValue q =
     (if 2 ^ 1024 - 2 ^ 970 \<le> q then PosInfinity
      else if q \<le> 1 / 2 ^ 1075 then Num 0
      else Num q)"

text \<open>
  \<open>parseFloat\<close>: leading white space is skipped, then the longest prefix that is a
  StrDecimalLiteral is read: an optional sign, then \<open>Infinity\<close>, or digits with an optional
  fraction and an optional exponent part (an exponent indicator that no digits follow is
  not part of the literal). No such prefix gives NaN.
\<close>

definition exponentPart :: "jsstring \<Rightarrow> int" where
  "exponentPart r =
     (case r of
        [] \<Rightarrow> 0
      | e # r1 \<Rightarrow>
          if e = 101 \<or> e = 69 then
            (case r1 of
               [] \<Rightarrow> 0
             | s # r2 \<Rightarrow>
                 if s = MINUS then - int (digitsValue (takeWhile isDigit r2))
                 else if s = PLUS then int (digitsValue (takeWhile isDigit r2))
                 else int (digitsValue (takeWhile isDigit r1)))
          else 0)"

definition scale10 :: "rat \<Rightarrow> int \<Rightarrow> rat" where
  "scale10 q e = (if 0 \<le> e then q * 10 ^ nat e else q / 10 ^ nat (- e))"

definition parseUnsigned :: "jsstring \<Rightarrow> jsnum" where
  "parseUnsigned t =
     (if prefix (js ''Infinity'') t then PosInfinity
      else
        let ip = takeWhile isDigit t;
            r1 = dropWhile isDigit t;
            fp = (case r1 of [] \<Rightarrow> [] | c # r \<Rightarrow> if c = DOT then takeWhile isDigit r else []);
            r2 = (case r1 of [] \<Rightarrow> [] | c # r \<Rightarrow> if c = DOT then dropWhile isDigit r else r1)
        in if ip = [] \<and> fp = [] then NaN
           else numberValue (scale10 (of_nat (digitsValue (ip @ fp))) (exponentPart r2 - int (length fp))))"

definition parseFloat :: "jsstring \<Rightarrow> jsnum" where
  "parseFloat s =
     (case dropWhile isWhiteSpace s of
        [] \<Rightarrow> NaN
      | c # r \<Rightarrow>
          if c = MINUS then negate (parseUnsigned r)
          else if c = PLUS then parseUnsigned r
          else parseUnsigned (c # r))"

subsection \<open>Regular expressions\<close>

text \<open>
  Every pattern of the parser but two is a sequence of greedy quantified character
  classes: an item \<open>(cls, lo, hi)\<close> is the class \<open>cls\<close> repeated \<open>lo\<close> to \<open>hi\<close> times
  (\<open>None\<close>: no upper bound). \<open>reMatch eol items s\<close> matches the items at the start of
  \<open>s\<close> as a backtracking matcher does: each item first takes as many characters as it
  can (\<open>kmax\<close>) and gives them back one at a time (\<open>reTry\<close>) while the rest of the
  pattern fails. With \<open>eol\<close> the pattern ends in \<open>$\<close>. The result holds the text every
  item matched.
\<close>

datatype charClass = Digit | WordChar | Space | Letter | OneOf jsstring | LitCI jschar

type_synonym reItem = "charClass \<times> nat \<times> nat option"

definition upperChar :: "jschar \<Rightarrow> jschar" where
  "upperChar c = (if isLower c then c - 32 else c)"

definition isLetter :: "jschar \<Rightarrow> bool" where
  "isLetter c = (isLower c \<or> isUpper c)"

text \<open>
  The classes: \<open>\d\<close>, \<open>\w\<close>, \<open>\s\<close>, \<open>[A-Z]\<close> under the i flag, a bracket of listed
  characters, and a pattern character under the i flag. Under the i flag (without u) two
  code units match when their canonical forms agree. For a pattern character of the Basic
  Latin block that is the case exactly for the character itself and, for a letter, its
  other case: the canonical form never maps a code unit above 127 into the block.
\<close>

fun inClass :: "charClass \<Rightarrow> jschar \<Rightarrow> bool" where
  "inClass Digit c = isDigit c"
| "inClass WordChar c = isWord c"
| "inClass Space c = isWhiteSpace c"
| "inClass Letter c = isLetter c"
| "inClass (OneOf cs) c = (c \<in> set cs)"
| "inClass (LitCI x) c = (upperChar c = upperChar x)"

fun reMatch :: "bool \<Rightarrow> reItem list \<Rightarrow> jsstring \<Rightarrow> jsstring list option"
  and reTry :: "bool \<Rightarrow> reItem list \<Rightarrow> jsstring \<Rightarrow> nat \<Rightarrow> nat \<Rightarrow> jsstring list option" where
  "reMatch eol [] s = (if eol \<and> s \<noteq> [] then None else Some [])"
| "reMatch eol ((cls, lo, hi) # its) s =
     (let n = length (takeWhile (inClass cls) s);
          kmax = (case hi of None \<Rightarrow> n | Some h \<Rightarrow> min h n)
      in reTry eol its s lo kmax)"
| "reTry eol its s lo k =
     (if k < lo then None
      else
        (case reMatch eol its (drop k s) of
           Some caps \<Rightarrow> Some (take k s # caps)
         | None \<Rightarrow> (case k of 0 \<Rightarrow> None | Suc k' \<Rightarrow> reTry eol its s lo k')))"

text \<open>One character of a class; a literal text under the i flag.\<close>

definition one :: "charClass \<Rightarrow> reItem" where
  "one cls = (cls, 1, Some 1)"

definition literalCI :: "jsstring \<Rightarrow> reItem list" where
  "literalCI s = map (\<lambda>x. one (LitCI x)) s"

text \<open>
  \<open>s.replace(pattern, r)\<close> for a pattern with the g flag: the matcher is tried at every
  position from the left; the text of a match is replaced by \<open>r\<close> and the scan goes on
  behind it (behind the next character when the match is empty). The counter is the number
  of characters of the current match that are still to be skipped.
\<close>

fun replaceAll_loop :: "reItem list \<Rightarrow> jsstring \<Rightarrow> nat \<Rightarrow> jsstring \<Rightarrow> jsstring" where
  "replaceAll_loop p r k [] =
     (case k of
        0 \<Rightarrow> (case reMatch False p [] of Some caps \<Rightarrow> r | None \<Rightarrow> [])
      | Suc k' \<Rightarrow> [])"
| "replaceAll_loop p r (Suc k) (c # cs) = replaceAll_loop p r k cs"
| "replaceAll_loop p r 0 (c # cs) =
     (case reMatch False p (c # cs) of
        None \<Rightarrow> c # replaceAll_loop p r 0 cs
      | Some caps \<Rightarrow>
          (case length (concat caps) of
             0 \<Rightarrow> r @ c # replaceAll_loop p r 0 cs
           | Suc n \<Rightarrow> r @ replaceAll_loop p r n cs))"

definition replaceAll :: "reItem list \<Rightarrow> jsstring \<Rightarrow> jsstring \<Rightarrow> jsstring" where
  "replaceAll p r s = replaceAll_loop p r 0 s"

text \<open>
  \<open>s.replace(/^["']|["']$/g, '')\<close>: a quote character at the very start is removed, and a
  quote character at the very end that is not the same character.
\<close>

definition isQuote :: "jschar \<Rightarrow> bool" where
  "isQuote c = (c = DQUOTE \<or> c = SQUOTE)"

definition stripQuotes :: "jsstring \<Rightarrow> jsstring" where
  "stripQuotes s =
     (let s1 = (case s of [] \<Rightarrow> [] | c # cs \<Rightarrow> if isQuote c then cs else s)
      in if s1 \<noteq> [] \<and> isQuote (last s1) then butlast s1 else s1)"

section \<open>The statement parser (src/utils/tsvParser.js)\<close>

subsection \<open>normalizeMultiLineFields\<close>

text \<open>
  The loop over \<open>content\<close> with its two variables \<open>result\<close> and \<open>inQuote\<close>: a line feed
  inside quotes becomes a space, everything else is appended as it is.
\<close>

fun normalizeMultiLineFields_loop :: "jsstring \<Rightarrow> bool \<Rightarrow> jsstring \<Rightarrow> jsstring" where
  "normalizeMultiLineFields_loop result inQuote [] = result"
| "normalizeMultiLineFields_loop result inQuote (c # cs) =
     (if c = DQUOTE then normalizeMultiLineFields_loop (result @ [c]) (\<not> inQuote) cs
      else if c = NEWLINE \<and> inQuote then normalizeMultiLineFields_loop (result @ [SPACE]) inQuote cs
      else normalizeMultiLineFields_loop (result @ [c]) inQuote cs)"

definition normalizeMultiLineFields :: "jsstring \<Rightarrow> jsstring" where
  "normalizeMultiLineFields content = normalizeMultiLineFields_loop [] False content"

subsection \<open>parseTabSeparatedLine\<close>

text \<open>
  The loop over \<open>line\<close> with its variables \<open>result\<close>, \<open>current\<close> and \<open>inQuote\<close>; the last
  field is pushed behind the loop.
\<close>

fun parseTabSeparatedLine_loop ::
  "jsstring list \<Rightarrow> jsstring \<Rightarrow> bool \<Rightarrow> jsstring \<Rightarrow> jsstring list" where
  "parseTabSeparatedLine_loop result current inQuote [] = result @ [trim current]"
| "parseTabSeparatedLine_loop result current inQuote (c # cs) =
     (if c = DQUOTE then parseTabSeparatedLine_loop result current (\<not> inQuote) cs
      else if c = TAB \<and> \<not> inQuote then parseTabSeparatedLine_loop (result @ [trim current]) [] inQuote cs
      else parseTabSeparatedLine_loop result (current @ [c]) inQuote cs)"

definition parseTabSeparatedLine :: "jsstring \<Rightarrow> jsstring list" where
  "parseTabSeparatedLine line = parseTabSeparatedLine_loop [] [] False line"

subsection \<open>findHeaderRow\<close>

text \<open>
  Reading \<open>lines[0]\<close> of an empty array gives \<open>undefined\<close>, whose \<open>length\<close> raises a
  TypeError; \<open>Error\<close> is the error that \<open>parseTSV\<close> throws itself, with its message.
\<close>

datatype jserror = Error jsstring | TypeError

definition requiredColumns :: "jsstring list" where
  "requiredColumns = [js ''date'', js ''debit'', js ''credit'', js ''balance'']"

definition descriptionColumns :: "jsstring list" where
  "descriptionColumns = [js ''description'', js ''details'', js ''particulars'', js ''narration'']"

definition hasDate :: "jsstring list \<Rightarrow> bool" where
  "hasDate columns =
     list_ex (\<lambda>c. str_includes c (js ''date'') \<and> \<not> str_includes c (js ''statement'') \<and>
                  \<not> str_includes c (js ''open'')) columns"

definition hasDebit :: "jsstring list \<Rightarrow> bool" where
  "hasDebit columns = list_ex (\<lambda>c. list_ex (\<lambda>req. str_includes c req) (drop 1 requiredColumns)) columns"

definition hasDescription :: "jsstring list \<Rightarrow> bool" where
  "hasDescription columns = list_ex (\<lambda>c. list_ex (\<lambda>desc. str_includes c desc) descriptionColumns) columns"

text \<open>The loop \<open>for (i = 0; i < Math.min(lines.length, 50); i++)\<close> over the lines of the window.\<close>

fun findHeaderRow_loop :: "nat \<Rightarrow> jsstring list \<Rightarrow> (int \<times> jsstring list) option" where
  "findHeaderRow_loop i [] = None"
| "findHeaderRow_loop i (line # rest) =
     (let columns = map (\<lambda>h. toLowerCase (trim h)) (parseTabSeparatedLine line)
      in if hasDate columns \<and> hasDebit columns \<and> hasDescription columns
         then Some (int i, map trim (parseTabSeparatedLine line))
         else findHeaderRow_loop (Suc i) rest)"

definition findHeaderRow :: "jsstring list \<Rightarrow> jserror + (int \<times> jsstring list)" where
  "findHeaderRow lines =
     (case findHeaderRow_loop 0 (take (min (length lines) 50) lines) of
        Some found \<Rightarrow> Inr found
      | None \<Rightarrow>
          (case lines of
             [] \<Rightarrow> Inl TypeError
           | line0 # rest \<Rightarrow> Inr (0, map trim (parseTabSeparatedLine line0))))"

subsection \<open>findKey\<close>

text \<open>
  The second pass tests \<open>(^|[^a-z])name([^a-z]|$)\<close>, where \<open>escapeRegex\<close> has made the
  name a literal: the name occurs at a position where no letter a..z stands before it and
  none behind it. The flag says whether the position is the start or follows a character
  outside a..z.
\<close>

definition endsWord :: "jsstring \<Rightarrow> jsstring \<Rightarrow> bool" where
  "endsWord name s =
     (prefix name s \<and> (case drop (length name) s of [] \<Rightarrow> True | c # cs \<Rightarrow> \<not> isLower c))"

fun wordTest :: "jsstring \<Rightarrow> bool \<Rightarrow> jsstring \<Rightarrow> bool" where
  "wordTest name boundary [] = (boundary \<and> name = [])"
| "wordTest name boundary (c # cs) =
     ((boundary \<and> endsWord name (c # cs)) \<or> wordTest name (\<not> isLower c) cs)"

definition findKey :: "jsstring list \<Rightarrow> jsstring list \<Rightarrow> jsstring option" where
  "findKey headers possibleNames =
     (case find (\<lambda>header. list_ex (\<lambda>name. trim (toLowerCase header) = toLowerCase name) possibleNames)
             headers of
        Some header \<Rightarrow> Some header
      | None \<Rightarrow>
          find (\<lambda>header. list_ex (\<lambda>name. wordTest (toLowerCase name) True (trim (toLowerCase header)))
                  possibleNames) headers)"

subsection \<open>parseAmount\<close>

text \<open>
  The argument is a string or \<open>undefined\<close> (\<open>None\<close>): \<open>raw[key]\<close> of a key that the record
  does not have.
\<close>

definition parseAmount :: "jsstring option \<Rightarrow> jsnum" where
  "parseAmount value =
     (case value of
        None \<Rightarrow> Num 0
      | Some v \<Rightarrow>
          if v = [] then Num 0
          else
            let cleaned = trim v in
            if cleaned = [] then Num 0
            else
              let cleaned = stripQuotes cleaned in
              if cleaned = [] then Num 0
              else
                let cleaned = filter (\<lambda>c. c \<noteq> COMMA) cleaned;
                    cleaned = trim (filter (\<lambda>c. c \<noteq> RUPEE \<and> c \<noteq> DOLLAR) cleaned);
                    num = parseFloat cleaned
                in if num = NaN then Num 0 else num)"

subsection \<open>parseDate\<close>

definition months :: "(jsstring \<times> jsstring) list" where
  "months =
     [(js ''jan'', js ''01''), (js ''feb'', js ''02''), (js ''mar'', js ''03''),
      (js ''apr'', js ''04''), (js ''may'', js ''05''), (js ''jun'', js ''06''),
      (js ''jul'', js ''07''), (js ''aug'', js ''08''), (js ''sep'', js ''09''),
      (js ''oct'', js ''10''), (js ''nov'', js ''11''), (js ''dec'', js ''12'')]"

text \<open>The classes \<open>[\/\-\.]\<close> and \<open>[\/\-]\<close>.\<close>

definition sep3 :: charClass where
  "sep3 = OneOf [SLASH, MINUS, DOT]"

definition sep2 :: charClass where
  "sep2 = OneOf [SLASH, MINUS]"

text \<open>The six patterns, in the order of the source; each ends in \<open>$\<close>.\<close>

definition reDMY4 :: "reItem list" where
  "reDMY4 = [(Digit, 1, Some 2), one sep3, (Digit, 1, Some 2), one sep3, (Digit, 4, Some 4)]"

definition reDMY2 :: "reItem list" where
  "reDMY2 = [(Digit, 1, Some 2), one sep3, (Digit, 1, Some 2), one sep3, (Digit, 2, Some 2)]"

definition reDMonY4sp :: "reItem list" where
  "reDMonY4sp =
     [(Digit, 1, Some 2), (Space, 1, None), (WordChar, 3, Some 3), (Space, 1, None),
      (Digit, 4, Some 4)]"

definition reDMonY4 :: "reItem list" where
  "reDMonY4 = [(Digit, 1, Some 2), one sep2, (WordChar, 3, Some 3), one sep2, (Digit, 4, Some 4)]"

definition reDMonY2 :: "reItem list" where
  "reDMonY2 = [(Digit, 1, Some 2), one sep2, (WordChar, 3, Some 3), one sep2, (Digit, 2, Some 2)]"

definition reISO :: "reItem list" where
  "reISO =
     [(Digit, 4, Some 4), one (OneOf [MINUS]), (Digit, 2, Some 2), one (OneOf [MINUS]),
      (Digit, 2, Some 2)]"

text \<open>\<open>parseInt(year) > 50 ? `19${year}` : `20${year}`\<close>, for a year of two digits.\<close>

definition fullYear :: "jsstring \<Rightarrow> jsstring" where
  "fullYear year = (if 50 < digitsValue year then js ''19'' @ year else js ''20'' @ year)"

text \<open>
  One definition for each \<open>match = ...; if (match) { ... }\<close> block: \<open>Some\<close> is the value the
  block returns, \<open>None\<close> means that control goes on to the next block (no match, or a
  month name that the table does not have). A match has one entry for each item of its
  pattern, the groups are entries 0, 2 and 4.
\<close>

definition tryDMY4 :: "jsstring \<Rightarrow> jsstring option" where
  "tryDMY4 cleaned =
     (case reMatch True reDMY4 cleaned of
        Some [day, s1, month, s2, year] \<Rightarrow>
          Some (year @ [MINUS] @ padStart0 2 month @ [MINUS] @ padStart0 2 day)
      | _ \<Rightarrow> None)"

definition tryDMY2 :: "jsstring \<Rightarrow> jsstring option" where
  "tryDMY2 cleaned =
     (case reMatch True reDMY2 cleaned of
        Some [day, s1, month, s2, year] \<Rightarrow>
          Some (fullYear year @ [MINUS] @ padStart0 2 month @ [MINUS] @ padStart0 2 day)
      | _ \<Rightarrow> None)"

definition tryDMonY4 :: "reItem list \<Rightarrow> jsstring \<Rightarrow> jsstring option" where
  "tryDMonY4 pattern cleaned =
     (case reMatch True pattern cleaned of
        Some [day, s1, monthStr, s2, year] \<Rightarrow>
          (case map_of months (toLowerCase monthStr) of
             Some month \<Rightarrow> Some (year @ [MINUS] @ month @ [MINUS] @ padStart0 2 day)
           | None \<Rightarrow> None)
      | _ \<Rightarrow> None)"

definition tryDMonY2 :: "jsstring \<Rightarrow> jsstring option" where
  "tryDMonY2 cleaned =
     (case reMatch True reDMonY2 cleaned of
        Some [day, s1, monthStr, s2, year] \<Rightarrow>
          (case map_of months (toLowerCase monthStr) of
             Some month \<Rightarrow> Some (fullYear year @ [MINUS] @ month @ [MINUS] @ padStart0 2 day)
           | None \<Rightarrow> None)
      | _ \<Rightarrow> None)"

definition tryISO :: "jsstring \<Rightarrow> jsstring option" where
  "tryISO cleaned = (case reMatch True reISO cleaned of Some m \<Rightarrow> Some cleaned | None \<Rightarrow> None)"

text \<open>\<open>None\<close> is the \<open>null\<close> that the function returns.\<close>

definition parseDate :: "jsstring \<Rightarrow> jsstring option" where
  "parseDate dateStr =
     (if dateStr = [] then None
      else
        let cleaned = trim (stripQuotes (trim dateStr)) in
        if cleaned = [] then None
        else
          (case tryDMY4 cleaned of
             Some r \<Rightarrow> Some r
           | None \<Rightarrow>
          (case tryDMY2 cleaned of
             Some r \<Rightarrow> Some r
           | None \<Rightarrow>
          (case tryDMonY4 reDMonY4sp cleaned of
             Some r \<Rightarrow> Some r
           | None \<Rightarrow>
          (case tryDMonY4 reDMonY4 cleaned of
             Some r \<Rightarrow> Some r
           | None \<Rightarrow>
          (case tryDMonY2 cleaned of
             Some r \<Rightarrow> Some r
           | None \<Rightarrow> tryISO cleaned))))))"

subsection \<open>cleanDescription\<close>

text \<open>The six noise patterns (flags g and i) and \<open>\s+\<close>.\<close>

definition reTransfer :: "jsstring \<Rightarrow> reItem list" where
  "reTransfer word =
     literalCI (word @ js '' TRANSFER-UPI/'') @ [(Letter, 1, None)] @ literalCI (js ''/'') @
     [(Digit, 1, None)] @ literalCI (js ''/'')"

definition reNoise :: "jsstring \<Rightarrow> reItem list" where
  "reNoise lead = literalCI lead @ [(Digit, 1, None)] @ literalCI (js ''/'')"

definition noisePatterns :: "reItem list list" where
  "noisePatterns =
     [reTransfer (js ''TO''), reTransfer (js ''BY''), reNoise (js ''UPI/DR/''), reNoise (js ''UPI/CR/''),
      reNoise (js ''/DR/''), reNoise (js ''/CR/'')]"

definition reSpaces :: "reItem list" where
  "reSpaces = [(Space, 1, None)]"

definition cleanDescription :: "jsstring \<Rightarrow> jsstring" where
  "cleanDescription description =
     (if description = [] then []
      else
        let cleaned = description;
            cleaned = replaceAll (reTransfer (js ''TO'')) [] cleaned;
            cleaned = replaceAll (reTransfer (js ''BY'')) [] cleaned;
            cleaned = replaceAll (reNoise (js ''UPI/DR/'')) [] cleaned;
            cleaned = replaceAll (reNoise (js ''UPI/CR/'')) [] cleaned;
            cleaned = replaceAll (reNoise (js ''/DR/'')) [] cleaned;
            cleaned = replaceAll (reNoise (js ''/CR/'')) [] cleaned;
            cleaned = trim (replaceAll reSpaces [SPACE] cleaned)
        in cleaned)"

subsection \<open>generateId\<close>

text \<open>
  \<open>Date.now()\<close> and \<open>Math.random().toString(36).substr(2, 9)\<close> come from outside the
  program: a call of \<open>generateId\<close> takes the two values it read, the clock in
  milliseconds and the text made from the random number.
\<close>

type_synonym entropy = "nat \<times> jsstring"

definition generateId :: "entropy \<Rightarrow> jsstring" where
  "generateId e = js ''txn_'' @ decimal (fst e) @ js ''_'' @ snd e"

subsection \<open>normalizeTransaction\<close>

datatype txnType = Credit | Debit

record transaction =
  id' :: jsstring
  date :: "jsstring option"
  valueDate :: "jsstring option"
  description :: jsstring
  reference :: jsstring
  debit :: jsnum
  credit :: jsnum
  balance :: jsnum
  amount :: jsnum
  type' :: txnType
  category :: "jsstring option"
  subcategory :: "jsstring option"
  notes' :: jsstring

text \<open>
  The raw record is the object that \<open>parseTSV\<close> fills, as the list of its assignments, the
  latest first. \<open>raw[key]\<close> turns a \<open>null\<close> key into the property name \<open>null\<close>; a name that
  the object does not have reads as \<open>undefined\<close> (no key that \<open>findKey\<close> can return and
  no \<open>null\<close> names a property of \<open>Object.prototype\<close>). \<open>orEmpty v\<close> is \<open>v || ''\<close>.
\<close>

type_synonym rawRecord = "(jsstring \<times> jsstring) list"

definition getProp :: "rawRecord \<Rightarrow> jsstring option \<Rightarrow> jsstring option" where
  "getProp raw key = map_of raw (case key of None \<Rightarrow> js ''null'' | Some k \<Rightarrow> k)"

definition orEmpty :: "jsstring option \<Rightarrow> jsstring" where
  "orEmpty v = (case v of None \<Rightarrow> [] | Some s \<Rightarrow> s)"

definition truthy :: "jsstring option \<Rightarrow> bool" where
  "truthy v = (orEmpty v \<noteq> [])"

definition dateNames :: "jsstring list" where
  "dateNames = [js ''txn date'', js ''transaction date'', js ''date'', js ''txn_date'']"

definition valueDateNames :: "jsstring list" where
  "valueDateNames = [js ''value date'', js ''value_date'', js ''valdate'']"

definition descNames :: "jsstring list" where
  "descNames = [js ''description'', js ''particulars'', js ''narration'', js ''desc'', js ''details'']"

definition refNames :: "jsstring list" where
  "refNames =
     [js ''ref no'', js ''ref no.'', js ''cheque no'', js ''cheque no.'', js ''ref no./cheque no.'',
      js ''ref no/cheque no'', js ''reference'']"

definition debitNames :: "jsstring list" where
  "debitNames = [js ''debit'', js ''withdrawal'', js ''dr'', js ''debit amount'']"

definition creditNames :: "jsstring list" where
  "creditNames = [js ''credit'', js ''deposit'', js ''cr'', js ''credit amount'']"

definition balanceNames :: "jsstring list" where
  "balanceNames = [js ''balance'', js ''closing balance'', js ''available balance'']"

text \<open>\<open>None\<close> is the \<open>null\<close> of a rejected row. The logging does not touch the result.\<close>

definition normalizeTransaction ::
  "entropy \<Rightarrow> rawRecord \<Rightarrow> jsstring list \<Rightarrow> transaction option" where
  "normalizeTransaction e raw headers =
     (let dateKey = findKey headers dateNames;
          valueDateKey = findKey headers valueDateNames;
          descKey = findKey headers descNames;
          refKey = findKey headers refNames;
          debitKey = findKey headers debitNames;
          creditKey = findKey headers creditNames;
          balanceKey = findKey headers balanceNames;
          dateStr = orEmpty (getProp raw dateKey);
          descriptionStr = orEmpty (getProp raw descKey)
      in if dateStr = [] \<or> descriptionStr = [] then None
         else
           let debitRaw = getProp raw debitKey;
               creditRaw = getProp raw creditKey;
               debitNum = parseAmount debitRaw;
               creditNum = parseAmount creditRaw;
               balanceNum = parseAmount (getProp raw balanceKey)
           in Some \<lparr>
                id' = generateId e,
                date = parseDate dateStr,
                valueDate =
                  (if truthy (getProp raw valueDateKey)
                   then parseDate (orEmpty (getProp raw valueDateKey)) else None),
                description = cleanDescription descriptionStr,
                reference = orEmpty (getProp raw refKey),
                debit = debitNum,
                credit = creditNum,
                balance = balanceNum,
                amount = (if positive creditNum then creditNum else negate debitNum),
                type' = (if positive creditNum then Credit else Debit),
                category = None,
                subcategory = None,
                notes' = []
              \<rparr>)"

subsection \<open>parseTSV\<close>

text \<open>
  \<open>transaction[header] = values[index] || ''\<close> for every header in turn. An assignment to
  \<open>__proto__\<close> with a string does not add a property to the object.
\<close>

definition nthOpt :: "'a list \<Rightarrow> nat \<Rightarrow> 'a option" where
  "nthOpt xs i = (if i < length xs then Some (xs ! i) else None)"

definition assign :: "rawRecord \<Rightarrow> jsstring \<Rightarrow> jsstring \<Rightarrow> rawRecord" where
  "assign t k v = (if k = js ''__proto__'' then t else (k, v) # t)"

fun forEachHeader :: "rawRecord \<Rightarrow> jsstring list \<Rightarrow> nat \<Rightarrow> jsstring list \<Rightarrow> rawRecord" where
  "forEachHeader t values index [] = t"
| "forEachHeader t values index (header # rest) =
     forEachHeader (assign t header (orEmpty (nthOpt values index))) values (Suc index) rest"

text \<open>\<open>while (values.length < headers.length) values.push('')\<close>.\<close>

definition padValues :: "jsstring list \<Rightarrow> jsstring list \<Rightarrow> jsstring list" where
  "padValues headers values = values @ replicate (length headers - length values) []"

text \<open>
  The loop over the lines behind the header. Transaction number \<open>n\<close> of the result (from
  0) takes its id from the \<open>n\<close>th reading of the clock and the random number generator,
  \<open>env n\<close>: \<open>generateId\<close> is called once for every row that is not rejected.
\<close>

fun parseRows ::
  "(nat \<Rightarrow> entropy) \<Rightarrow> jsstring list \<Rightarrow> transaction list \<Rightarrow> jsstring list \<Rightarrow> transaction list" where
  "parseRows env headers transactions [] = transactions"
| "parseRows env headers transactions (line # rest) =
     (let rawValues = parseTabSeparatedLine line;
          values = map trim rawValues
      in if list_all (\<lambda>v. v = []) values then parseRows env headers transactions rest
         else
           let values = padValues headers values;
               raw = forEachHeader [] values 0 headers
           in (case normalizeTransaction (env (length transactions)) raw headers of
                 None \<Rightarrow> parseRows env headers transactions rest
               | Some normalizedTransaction \<Rightarrow>
                   parseRows env headers (transactions @ [normalizedTransaction]) rest))"

definition parseTSV :: "(nat \<Rightarrow> entropy) \<Rightarrow> jsstring \<Rightarrow> jserror + transaction list" where
  "parseTSV env content =
     (let normalizedContent = normalizeMultiLineFields content;
          lines = split_on NEWLINE (trim normalizedContent)
      in if length lines < 2 then Inl (Error (js ''Invalid TSV file: No data rows found''))
         else
           (case findHeaderRow lines of
              Inl err \<Rightarrow> Inl err
            | Inr (headerIndex, headers) \<Rightarrow>
                if headerIndex = - 1
                then Inl (Error (js (''Could not find header row with transaction columns '' @
                                     ''(Date, Description/Details, Debit, Credit, Balance)'')))
                else Inr (parseRows env headers [] (drop (nat (headerIndex + 1)) lines))))"

section \<open>Notions of the specification\<close>

text \<open>
  The number of tab characters of a line that stand outside quotes, where every quote
  character switches between outside and inside; the flag says whether the line starts
  inside.
\<close>

fun unquotedTabs :: "bool \<Rightarrow> jsstring \<Rightarrow> nat" where
  "unquotedTabs inQuote [] = 0"
| "unquotedTabs inQuote (c # cs) =
     (if c = DQUOTE then unquotedTabs (\<not> inQuote) cs
      else if c = TAB \<and> \<not> inQuote then Suc (unquotedTabs inQuote cs)
      else unquotedTabs inQuote cs)"

text \<open>
  The pieces of a line between its tabs outside quotes, quote characters included: every
  quote character switches between outside and inside, a tab outside ends a piece, and the
  last piece is there even when it is empty. \<open>unquote\<close> takes the quote characters out of
  a piece.
\<close>

fun rawFields :: "bool \<Rightarrow> jsstring \<Rightarrow> jsstring list" where
  "rawFields inQuote [] = [[]]"
| "rawFields inQuote (c # cs) =
     (if c = TAB \<and> \<not> inQuote then [] # rawFields inQuote cs
      else let r = rawFields (inQuote \<noteq> (c = DQUOTE)) cs in (c # hd r) # tl r)"

definition unquote :: "jsstring \<Rightarrow> jsstring" where
  "unquote f = filter (\<lambda>c. c \<noteq> DQUOTE) f"

text \<open>
  The lower-cased tokens of a line, and the condition on them that makes a line a header:
  a token with "date" but neither "statement" nor "open", a token with one of the given
  amount words, and a token with one of the four description words. The claim names five
  amount words, the source has three.
\<close>

definition lowerTokens :: "jsstring \<Rightarrow> jsstring list" where
  "lowerTokens line = map (\<lambda>h. toLowerCase (trim h)) (parseTabSeparatedLine line)"

definition qualifies :: "jsstring list \<Rightarrow> jsstring \<Rightarrow> bool" where
  "qualifies words line =
     (list_ex (\<lambda>t. str_includes t (js ''date'') \<and> \<not> str_includes t (js ''statement'') \<and>
                   \<not> str_includes t (js ''open'')) (lowerTokens line) \<and>
      list_ex (\<lambda>t. list_ex (str_includes t) words) (lowerTokens line) \<and>
      list_ex (\<lambda>t. list_ex (str_includes t)
                  [js ''description'', js ''details'', js ''particulars'', js ''narration''])
        (lowerTokens line))"

definition claimedAmountWords :: "jsstring list" where
  "claimedAmountWords = [js ''debit'', js ''credit'', js ''balance'', js ''withdrawal'', js ''deposit'']"

definition amountWords :: "jsstring list" where
  "amountWords = [js ''debit'', js ''credit'', js ''balance'']"

text \<open>
  The trimmed tokens of a line in their original case.
\<close>

definition headerTokens :: "jsstring \<Rightarrow> jsstring list" where
  "headerTokens line = map trim (parseTabSeparatedLine line)"

text \<open>
  One quote character, double or single, taken from the start of a text and one from the
  end of what is left; the commas, rupee signs and dollar signs taken out of a text.
\<close>

definition withoutQuotes :: "jsstring \<Rightarrow> jsstring" where
  "withoutQuotes s =
     (let t = (if s \<noteq> [] \<and> hd s \<in> {DQUOTE, SQUOTE} then tl s else s)
      in if t \<noteq> [] \<and> last t \<in> {DQUOTE, SQUOTE} then butlast t else t)"

definition withoutSymbols :: "jsstring \<Rightarrow> jsstring" where
  "withoutSymbols s = filter (\<lambda>c. c \<notin> {COMMA, RUPEE, DOLLAR}) s"

text \<open>
  The text that is parsed as a number: the input trimmed, one quote character taken from
  each end, commas and currency symbols removed. A result that is not a number counts as 0.
\<close>

definition amountText :: "jsstring \<Rightarrow> jsstring" where
  "amountText v = withoutSymbols (withoutQuotes (trim v))"

definition numberOrZero :: "jsnum \<Rightarrow> jsnum" where
  "numberOrZero n = (if n = NaN then Num 0 else n)"

text \<open>
  The raw text of a role: the property of the record under the header that \<open>findKey\<close>
  resolves for the names of the role.
\<close>

definition cell :: "rawRecord \<Rightarrow> jsstring list \<Rightarrow> jsstring list \<Rightarrow> jsstring option" where
  "cell raw headers names = getProp raw (findKey headers names)"

text \<open>
  The part of a text before its first white space character.
\<close>

abbreviation nows :: "jsstring \<Rightarrow> jsstring" where
  "nows t \<equiv> takeWhile (\<lambda>c. \<not> isWhiteSpace c) t"

text \<open>
  The first character of a text behind its leading white space is a minus sign.
\<close>

definition leadingMinus :: "jsstring \<Rightarrow> bool" where
  "leadingMinus text = (case dropWhile isWhiteSpace text of [] \<Rightarrow> False | c # r \<Rightarrow> c = MINUS)"

text \<open>
  A transaction with its id blanked, to compare transactions apart from their ids; an
  environment that answers every reading with the same clock and random text.
\<close>

definition withoutId :: "transaction \<Rightarrow> transaction" where
  "withoutId t = t\<lparr>id' := []\<rparr>"

definition constEnv :: "entropy \<Rightarrow> nat \<Rightarrow> entropy" where
  "constEnv e n = e"

text \<open>
  The raw record that \<open>parseTSV\<close> builds for a data line under the given header.
\<close>

definition rawOf :: "jsstring list \<Rightarrow> jsstring \<Rightarrow> rawRecord" where
  "rawOf headers line =
     forEachHeader [] (padValues headers (map trim (parseTabSeparatedLine line))) 0 headers"

text \<open>
  Sample statements and records: a header line and one data line whose debit cell is
  \<open>-5\<close>, the same with the cell \<open>5\<close>, and a record whose date, value date and debit are
  not parseable.
\<close>

definition statementNegative :: jsstring where
  "statementNegative =
     js ''Date'' @ [TAB] @ js ''Description'' @ [TAB] @ js ''Debit'' @ [NEWLINE] @
     js ''1/1/2024'' @ [TAB] @ js ''Shop'' @ [TAB] @ js ''-5''"

definition rawSample :: rawRecord where
  "rawSample =
     [(js ''Value Date'', js ''soon''), (js ''Debit'', js ''abc''), (js ''Description'', js ''Shop''),
      (js ''Date'', js ''someday'')]"

definition headersSample :: "jsstring list" where
  "headersSample = [js ''Date'', js ''Description'', js ''Debit'', js ''Value Date'']"

definition statementPlain :: jsstring where
  "statementPlain =
     js ''Date'' @ [TAB] @ js ''Description'' @ [TAB] @ js ''Debit'' @ [NEWLINE] @
     js ''1/1/2024'' @ [TAB] @ js ''Shop'' @ [TAB] @ js ''5''"

text \<open>
  A data line whose date, value date and debit are not parseable; under the sample header
  it gives the sample record.
\<close>

definition rowSample :: jsstring where
  "rowSample = js ''someday'' @ [TAB] @ js ''Shop'' @ [TAB] @ js ''abc'' @ [TAB] @ js ''soon''"

text \<open>
  A text fits an item of a pattern: all its characters are in the class of the item and
  its length is within the bounds of the item.
\<close>

definition bounded :: "reItem \<Rightarrow> jsstring \<Rightarrow> bool" where
  "bounded it cap =
     (case it of (cls, lo, hi) \<Rightarrow>
        list_all (inClass cls) cap \<and> lo \<le> length cap \<and>
        (case hi of None \<Rightarrow> True | Some h \<Rightarrow> length cap \<le> h))"

text \<open>
  The first of a list of formats, in the order of the list, that accepts a text.
\<close>

fun firstMatch :: "(jsstring \<Rightarrow> jsstring option) list \<Rightarrow> jsstring \<Rightarrow> jsstring option" where
  "firstMatch [] s = None"
| "firstMatch (f # fs) s = (case f s of Some r \<Rightarrow> Some r | None \<Rightarrow> firstMatch fs s)"

text \<open>
  A run of decimal digits whose length is between the two bounds.
\<close>

definition digits :: "nat \<Rightarrow> nat \<Rightarrow> jsstring \<Rightarrow> bool" where
  "digits lo hi ds = (list_all isDigit ds \<and> lo \<le> length ds \<and> length ds \<le> hi)"

text \<open>
  A pattern read without backtracking: every item takes the longest run of its class, the
  run has to be within the bounds of the item, and the text ends behind the last item. A
  pattern is separated when every item takes at least one character and no character is in
  the classes of two neighbouring items; on a separated pattern that ends in \<open>$\<close> the
  backtracking matcher and this reading agree.
\<close>

fun munch :: "reItem list \<Rightarrow> jsstring \<Rightarrow> jsstring list option" where
  "munch [] s = (if s = [] then Some [] else None)"
| "munch ((cls, lo, hi) # its) s =
     (if bounded (cls, lo, hi) (takeWhile (inClass cls) s)
      then map_option (\<lambda>caps. takeWhile (inClass cls) s # caps) (munch its (dropWhile (inClass cls) s))
      else None)"

fun separated :: "reItem list \<Rightarrow> bool" where
  "separated [] = True"
| "separated [(cls, lo, hi)] = (0 < lo)"
| "separated ((cls, lo, hi) # (cls', lo', hi') # its) =
     (0 < lo \<and> (\<forall>z. inClass cls z \<longrightarrow> \<not> inClass cls' z) \<and> separated ((cls', lo', hi') # its))"

text \<open>
  The runs of a text: its longest prefix of characters of the first kind, behind that the
  longest run of the second kind, and so on; what is left is the last entry.
\<close>

fun runs :: "(jschar \<Rightarrow> bool) list \<Rightarrow> jsstring \<Rightarrow> jsstring list" where
  "runs [] s = [s]"
| "runs (P # Ps) s = takeWhile P s # runs Ps (dropWhile P s)"

text \<open>
  The text that the date formats are tried on: the input trimmed, one quote character
  taken from each end, and trimmed again. The century that goes before a year of two
  digits: 19 when the year is above 50, else 20.
\<close>

definition cleanedDate :: "jsstring \<Rightarrow> jsstring" where
  "cleanedDate s = trim (withoutQuotes (trim s))"

definition century :: "jsstring \<Rightarrow> jsstring" where
  "century y = (if 50 < digitsValue y then js ''19'' else js ''20'')"

text \<open>
  The separators of a numeric date (slash, dash, dot), of a date with a month name (slash,
  dash) and of an ISO date (dash).
\<close>

definition isDateSep :: "jschar \<Rightarrow> bool" where
  "isDateSep c = (c = SLASH \<or> c = MINUS \<or> c = DOT)"

definition isMonthSep :: "jschar \<Rightarrow> bool" where
  "isMonthSep c = (c = SLASH \<or> c = MINUS)"

definition isDash :: "jschar \<Rightarrow> bool" where
  "isDash c = (c = MINUS)"

text \<open>
  The English month abbreviations in the order of the year, and the number of a month,
  counted from 1 and written with two digits; a month name is looked up in lower case.
\<close>

definition monthNames :: "jsstring list" where
  "monthNames =
     [js ''jan'', js ''feb'', js ''mar'', js ''apr'', js ''may'', js ''jun'', js ''jul'', js ''aug'',
      js ''sep'', js ''oct'', js ''nov'', js ''dec'']"

definition twoDigits :: "nat \<Rightarrow> jsstring" where
  "twoDigits n = padStart0 2 (decimal n)"

definition monthNumber :: "jsstring \<Rightarrow> jsstring option" where
  "monthNumber mon =
     map_of (zip monthNames (map twoDigits [1, 2, 3, 4, 5, 6, 7, 8, 9, 10, 11, 12]))
       (toLowerCase mon)"

text \<open>
  The formats of the specification, each stated on the runs of the text. Formats 1 and 2:
  one or two digits, one separator, one or two digits, one separator, and a year of \<open>n\<close>
  digits (4 or 2). The result is year, month and day with dashes between them, month and
  day padded to two digits, a year of two digits behind its century.
\<close>

definition numericDate :: "nat \<Rightarrow> jsstring \<Rightarrow> jsstring option" where
  "numericDate n s =
     (case runs [isDigit, isDateSep, isDigit, isDateSep] s of
        [d, s1, m, s2, y] \<Rightarrow>
          if digits 1 2 d \<and> length s1 = 1 \<and> digits 1 2 m \<and> length s2 = 1 \<and> digits n n y
          then Some ((if n = 2 then century y else []) @ y @ [MINUS] @ padStart0 2 m @ [MINUS] @
                     padStart0 2 d)
          else None
      | _ \<Rightarrow> None)"

text \<open>
  Formats 3, 4 and 5: one or two digits, a separator, three word characters that are a
  month name, a separator, and a year of \<open>n\<close> digits. The separator is one character of the
  given kind or, in format 3, a run of white space of any length. A text of this shape
  whose month name is not in the list is not accepted.
\<close>

definition monthDate :: "(jschar \<Rightarrow> bool) \<Rightarrow> bool \<Rightarrow> nat \<Rightarrow> jsstring \<Rightarrow> jsstring option" where
  "monthDate sep single n s =
     (case runs [isDigit, sep, isWord, sep] s of
        [d, s1, mon, s2, y] \<Rightarrow>
          if digits 1 2 d \<and> (if single then length s1 = 1 \<and> length s2 = 1 else s1 \<noteq> [] \<and> s2 \<noteq> []) \<and>
             length mon = 3 \<and> digits n n y
          then (case monthNumber mon of
                  Some mm \<Rightarrow>
                    Some ((if n = 2 then century y else []) @ y @ [MINUS] @ mm @ [MINUS] @ padStart0 2 d)
                | None \<Rightarrow> None)
          else None
      | _ \<Rightarrow> None)"

text \<open>
  Format 6: four digits, a dash, two digits, a dash, two digits; the text is returned as it
  is.
\<close>

definition isoDate :: "jsstring \<Rightarrow> jsstring option" where
  "isoDate s =
     (case runs [isDigit, isDash, isDigit, isDash] s of
        [y, s1, m, s2, d] \<Rightarrow>
          if digits 4 4 y \<and> length s1 = 1 \<and> digits 2 2 m \<and> length s2 = 1 \<and> digits 2 2 d
          then Some s else None
      | _ \<Rightarrow> None)"

text \<open>
  The six formats in the priority order of the specification.
\<close>

definition dateFormats :: "(jsstring \<Rightarrow> jsstring option) list" where
  "dateFormats =
     [numericDate 4, numericDate 2, monthDate isWhiteSpace False 4, monthDate isMonthSep True 4,
      monthDate isMonthSep True 2, isoDate]"

text \<open>
  A pattern matches somewhere in a text; a text has noise when one of the six noise
  patterns matches somewhere in it.
\<close>

fun occurs :: "reItem list \<Rightarrow> jsstring \<Rightarrow> bool" where
  "occurs p [] = (reMatch False p [] \<noteq> None)"
| "occurs p (c # cs) = (reMatch False p (c # cs) \<noteq> None \<or> occurs p cs)"

definition hasNoise :: "jsstring \<Rightarrow> bool" where
  "hasNoise s = list_ex (\<lambda>p. occurs p s) noisePatterns"

text \<open>
  Every white space character of a text is a single space that no white space follows.
\<close>

fun collapsed :: "jsstring \<Rightarrow> bool" where
  "collapsed [] = True"
| "collapsed (c # cs) =
     ((if isWhiteSpace c then c = SPACE \<and> (case cs of [] \<Rightarrow> True | d # ds \<Rightarrow> \<not> isWhiteSpace d) else True) \<and>
      collapsed cs)"

section \<open>Strings and the row tokenizer\<close>

lemma set_trim: "set (trim s) \<subseteq> set s"
proof -
  have "set (trim s) \<subseteq> set (dropWhile isWhiteSpace s)"
    unfolding trim_def by (auto dest: set_dropWhileD)
  also have "\<dots> \<subseteq> set s" by (auto dest: set_dropWhileD)
  finally show ?thesis .
qed

lemma trim_Nil [simp]: "trim [] = []"
  by (simp add: trim_def)

lemma last_dropWhile: "dropWhile P xs \<noteq> [] \<Longrightarrow> last (dropWhile P xs) = last xs"
  by (induction xs) (auto split: if_splits)

lemma trim_ends:
  "trim s = [] \<or> (\<not> isWhiteSpace (hd (trim s)) \<and> \<not> isWhiteSpace (last (trim s)))"
proof (cases "trim s = []")
  case True then show ?thesis by simp
next
  case False
  define d where "d = dropWhile isWhiteSpace s"
  define u where "u = dropWhile isWhiteSpace (rev d)"
  have t: "trim s = rev u" by (simp add: trim_def d_def u_def)
  have u: "u \<noteq> []" using False t by simp
  then have d: "d \<noteq> []" by (auto simp: u_def)
  have "\<not> isWhiteSpace (hd u)" using u unfolding u_def by (rule hd_dropWhile)
  then have 1: "\<not> isWhiteSpace (last (trim s))" using u by (simp add: t last_rev)
  have "last u = last (rev d)" using u unfolding u_def by (rule last_dropWhile)
  also have "\<dots> = hd d" using d by (simp add: last_rev)
  finally have "hd (trim s) = hd d" using u by (simp add: t hd_rev)
  moreover have "\<not> isWhiteSpace (hd d)" using d unfolding d_def by (rule hd_dropWhile)
  ultimately show ?thesis using 1 by simp
qed

lemma trim_fix:
  "s = [] \<or> (\<not> isWhiteSpace (hd s) \<and> \<not> isWhiteSpace (last s)) \<Longrightarrow> trim s = s"
proof (cases "s = []")
  case True then show ?thesis by simp
next
  case False
  assume "s = [] \<or> (\<not> isWhiteSpace (hd s) \<and> \<not> isWhiteSpace (last s))"
  with False have h: "\<not> isWhiteSpace (hd s)" and l: "\<not> isWhiteSpace (last s)" by auto
  have 1: "dropWhile isWhiteSpace s = s" using h by (simp add: dropWhile_eq_self_iff)
  have "hd (rev s) = last s" using False by (simp add: hd_rev)
  then have 2: "dropWhile isWhiteSpace (rev s) = rev s" using l by (simp add: dropWhile_eq_self_iff)
  show ?thesis by (simp add: trim_def 1 2)
qed

lemma trim_idem: "trim (trim s) = trim s"
  using trim_ends [of s] by (rule trim_fix)

lemma tsl_loop_result:
  "parseTabSeparatedLine_loop result current q s = result @ parseTabSeparatedLine_loop [] current q s"
proof (induction s arbitrary: result current q)
  case Nil show ?case by simp
next
  case (Cons c cs)
  show ?case
  proof (cases "c = DQUOTE")
    case True then show ?thesis using Cons.IH [of result current "\<not> q"] by simp
  next
    case False
    show ?thesis
    proof (cases "c = TAB \<and> \<not> q")
      case True
      then show ?thesis
        using False Cons.IH [of "result @ [trim current]" "[]" q] Cons.IH [of "[trim current]" "[]" q]
        by simp
    next
      case nt: False
      then show ?thesis using False Cons.IH [of result "current @ [c]" q] by auto
    qed
  qed
qed

lemma tsl_loop_length:
  "length (parseTabSeparatedLine_loop result current q s) = length result + Suc (unquotedTabs q s)"
  by (induction s arbitrary: result current q) simp_all

lemma tsl_loop_fields:
  assumes "\<And>cur. P (trim cur)"
  shows "list_all P result \<Longrightarrow> list_all P (parseTabSeparatedLine_loop result current q s)"
  by (induction s arbitrary: result current q) (simp_all add: assms)

lemma tsl_loop_noquote_fields:
  "list_all (\<lambda>f. DQUOTE \<notin> set f) result \<Longrightarrow> DQUOTE \<notin> set current \<Longrightarrow>
   list_all (\<lambda>f. DQUOTE \<notin> set f) (parseTabSeparatedLine_loop result current q s)"
proof (induction s arbitrary: result current q)
  case Nil then show ?case using set_trim [of current] by auto
next
  case (Cons c cs)
  have t: "DQUOTE \<notin> set (trim current)" using Cons.prems(2) set_trim by blast
  show ?case using Cons.prems t by (simp add: Cons.IH)
qed

lemma tsl_loop_quoted:
  "DQUOTE \<notin> set w \<Longrightarrow>
   parseTabSeparatedLine_loop result current True (w @ DQUOTE # rest) =
   parseTabSeparatedLine_loop result (current @ w) False rest"
  by (induction w arbitrary: current) simp_all

lemma tsl_loop_unquoted:
  "DQUOTE \<notin> set s \<Longrightarrow>
   parseTabSeparatedLine_loop result current False s = result @ map trim (split_loop TAB current s)"
  by (induction s arbitrary: result current) simp_all

lemma split_loop_length: "length (split_loop sep current s) = Suc (count_list s sep)"
  by (induction s arbitrary: current) simp_all

lemma js_Nil [simp]: "js [] = []"
  by (simp add: js_def)

lemma js_Cons [simp]: "js (c # cs) = of_char c # js cs"
  by (simp add: js_def)

lemma rawFields_nonempty: "rawFields q s \<noteq> []"
  by (induction s arbitrary: q) (simp_all add: Let_def)

lemma tsl_loop_rawFields:
  "parseTabSeparatedLine_loop result current q s =
   result @ trim (current @ unquote (hd (rawFields q s))) #
            map (\<lambda>f. trim (unquote f)) (tl (rawFields q s))"
proof (induction s arbitrary: result current q)
  case Nil show ?case by (simp add: unquote_def)
next
  case (Cons c cs)
  show ?case
  proof (cases "c = DQUOTE")
    case True
    then show ?thesis using Cons.IH [of result current "\<not> q"] by (simp add: Let_def unquote_def)
  next
    case False
    show ?thesis
    proof (cases "c = TAB \<and> \<not> q")
      case True
      have "map (\<lambda>f. trim (unquote f)) (rawFields q cs) =
            trim (unquote (hd (rawFields q cs))) # map (\<lambda>f. trim (unquote f)) (tl (rawFields q cs))"
        using rawFields_nonempty [of q cs] by (cases "rawFields q cs") simp_all
      then show ?thesis
        using True False Cons.IH [of "result @ [trim current]" "[]" q] by (simp add: unquote_def)
    next
      case nt: False
      then show ?thesis
        using False Cons.IH [of result "current @ [c]" q] by (auto simp: Let_def unquote_def)
    qed
  qed
qed

section \<open>The header locator\<close>

lemma str_includes_iff: "str_includes s sub \<longleftrightarrow> (\<exists>ps ss. s = ps @ sub @ ss)"
proof (induction s)
  case Nil show ?case by auto
next
  case (Cons c cs)
  show ?case
  proof
    assume "str_includes (c # cs) sub"
    then consider "prefix sub (c # cs)" | "str_includes cs sub" by auto
    then show "\<exists>ps ss. c # cs = ps @ sub @ ss"
    proof cases
      case 1 then obtain ss where "c # cs = sub @ ss" by (auto simp: prefix_def)
      then have "c # cs = [] @ sub @ ss" by simp
      then show ?thesis by blast
    next
      case 2 then obtain ps ss where "cs = ps @ sub @ ss" using Cons.IH by blast
      then have "c # cs = (c # ps) @ sub @ ss" by simp
      then show ?thesis by blast
    qed
  next
    assume "\<exists>ps ss. c # cs = ps @ sub @ ss"
    then obtain ps ss where e: "c # cs = ps @ sub @ ss" by blast
    show "str_includes (c # cs) sub"
    proof (cases ps)
      case Nil
      then have "prefix sub (c # cs)" using e by (simp add: prefix_def)
      then show ?thesis by simp
    next
      case (Cons p ps') then have "cs = ps' @ sub @ ss" using e by simp
      then show ?thesis using Cons.IH by auto
    qed
  qed
qed

lemma qualifies_code:
  "qualifies amountWords line \<longleftrightarrow>
   hasDate (lowerTokens line) \<and> hasDebit (lowerTokens line) \<and> hasDescription (lowerTokens line)"
  by (simp add: qualifies_def amountWords_def hasDate_def hasDebit_def hasDescription_def
      requiredColumns_def descriptionColumns_def)

lemma fhr_loop_step:
  "findHeaderRow_loop k (line # rest) =
     (if qualifies amountWords line then Some (int k, headerTokens line)
      else findHeaderRow_loop (Suc k) rest)"
  by (simp add: qualifies_code lowerTokens_def headerTokens_def Let_def)

lemma fhr_loop_none:
  "\<forall>j<length ls. \<not> qualifies amountWords (ls ! j) \<Longrightarrow> findHeaderRow_loop k ls = None"
proof (induction ls arbitrary: k)
  case Nil show ?case by simp
next
  case (Cons l ls)
  have "\<not> qualifies amountWords l" using Cons.prems by auto
  moreover have "\<forall>j<length ls. \<not> qualifies amountWords (ls ! j)" using Cons.prems by auto
  ultimately show ?case using Cons.IH by (simp only: fhr_loop_step if_False)
qed

lemma fhr_loop_found:
  "i < length ls \<Longrightarrow> qualifies amountWords (ls ! i) \<Longrightarrow>
   \<forall>j<i. \<not> qualifies amountWords (ls ! j) \<Longrightarrow>
   findHeaderRow_loop k ls = Some (int (k + i), headerTokens (ls ! i))"
proof (induction ls arbitrary: k i)
  case Nil then show ?case by simp
next
  case (Cons l ls)
  show ?case
  proof (cases i)
    case 0 then show ?thesis using Cons.prems by (simp only: fhr_loop_step) simp
  next
    case (Suc i')
    have n: "\<not> qualifies amountWords l" using Cons.prems(3) Suc by auto
    have "\<forall>j<i'. \<not> qualifies amountWords (ls ! j)" using Cons.prems(3) Suc by auto
    then have "findHeaderRow_loop (Suc k) ls = Some (int (Suc k + i'), headerTokens (ls ! i'))"
      using Cons.prems Suc by (intro Cons.IH) auto
    then show ?thesis using n Suc by (simp only: fhr_loop_step) simp
  qed
qed

lemmas header_sample_eval = parseTabSeparatedLine_def trim_def isWhiteSpace_def toLowerCase_def lowerUnits_def isUpper_def
   lowerTokens_def qualifies_def amountWords_def claimedAmountWords_def headerTokens_def

section \<open>Amounts\<close>

lemma digit_not_ws: "isDigit c \<Longrightarrow> \<not> isWhiteSpace c"
  by (auto simp: isDigit_def isWhiteSpace_def)

lemma takeWhile_digit_nows: "takeWhile isDigit (nows t) = takeWhile isDigit t"
  by (induction t) (auto simp: digit_not_ws)

lemma dropWhile_digit_nows: "dropWhile isDigit (nows t) = nows (dropWhile isDigit t)"
  by (induction t) (auto simp: digit_not_ws)

lemma prefix_nows:
  "list_all (\<lambda>c. \<not> isWhiteSpace c) p \<Longrightarrow> prefix p (nows t) \<longleftrightarrow> prefix p t"
proof (induction p arbitrary: t)
  case Nil show ?case by simp
next
  case (Cons a p)
  then show ?case by (cases t) auto
qed

lemma exponentPart_nows: "exponentPart (nows r) = exponentPart r"
proof (cases r)
  case Nil then show ?thesis by simp
next
  case (Cons e r1)
  show ?thesis
  proof (cases "e = 101 \<or> e = 69")
    case False
    then show ?thesis using Cons by (auto simp: exponentPart_def)
  next
    case True
    then have e: "\<not> isWhiteSpace e" by (auto simp: isWhiteSpace_def)
    show ?thesis
    proof (cases r1)
      case Nil then show ?thesis using Cons e by (simp add: exponentPart_def)
    next
      case (Cons s r2)
      note r1 = this
      show ?thesis
      proof (cases "isWhiteSpace s")
        case True
        then have "s \<noteq> MINUS" "s \<noteq> PLUS" "\<not> isDigit s" by (auto simp: isWhiteSpace_def isDigit_def)
        then show ?thesis using \<open>r = e # r1\<close> r1 e True by (simp add: exponentPart_def digitsValue_def)
      next
        case False
        have "takeWhile isDigit (s # nows r2) = takeWhile isDigit (s # r2)"
          using takeWhile_digit_nows [of "s # r2"] False by simp
        then show ?thesis using \<open>r = e # r1\<close> r1 e False
          by (simp add: exponentPart_def takeWhile_digit_nows)
      qed
    qed
  qed
qed

lemma parseUnsigned_nows: "parseUnsigned (nows t) = parseUnsigned t"
proof -
  have inf: "prefix (js ''Infinity'') (nows t) \<longleftrightarrow> prefix (js ''Infinity'') t"
    by (rule prefix_nows) (simp add: isWhiteSpace_def)
  define r1 where "r1 = dropWhile isDigit t"
  have d: "dropWhile isDigit (nows t) = nows r1" by (simp add: r1_def dropWhile_digit_nows)
  have fp: "(case nows r1 of [] \<Rightarrow> [] | c # r \<Rightarrow> if c = DOT then takeWhile isDigit r else []) =
            (case r1 of [] \<Rightarrow> [] | c # r \<Rightarrow> if c = DOT then takeWhile isDigit r else [])"
  proof -
    have "\<not> isWhiteSpace DOT" by (simp add: isWhiteSpace_def)
    then show ?thesis by (cases r1) (auto simp: takeWhile_digit_nows)
  qed
  have r2: "exponentPart (case nows r1 of [] \<Rightarrow> [] | c # r \<Rightarrow> if c = DOT then dropWhile isDigit r else nows r1) =
            exponentPart (case r1 of [] \<Rightarrow> [] | c # r \<Rightarrow> if c = DOT then dropWhile isDigit r else r1)"
  proof (cases r1)
    case Nil then show ?thesis by simp
  next
    case (Cons c r)
    show ?thesis
    proof (cases "c = DOT")
      case True
      then have "\<not> isWhiteSpace c" by (simp add: isWhiteSpace_def)
      then show ?thesis using Cons True exponentPart_nows [of "dropWhile isDigit r"]
        by (simp add: dropWhile_digit_nows)
    next
      case False
      have "exponentPart (nows r1) = exponentPart r1" by (rule exponentPart_nows)
      moreover have "nows r1 = [] \<Longrightarrow> exponentPart [] = exponentPart r1"
        using exponentPart_nows [of r1] by simp
      ultimately show ?thesis using Cons False
        by (cases "isWhiteSpace c") auto
    qed
  qed
  show ?thesis
    unfolding parseUnsigned_def Let_def inf takeWhile_digit_nows d fp r2 r1_def [symmetric] ..
qed

lemma trim_decomp: "\<exists>w. dropWhile isWhiteSpace x = trim x @ w \<and> list_all isWhiteSpace w"
proof -
  define d where "d = dropWhile isWhiteSpace x"
  have "rev (dropWhile isWhiteSpace (rev d)) @ rev (takeWhile isWhiteSpace (rev d)) =
        rev (takeWhile isWhiteSpace (rev d) @ dropWhile isWhiteSpace (rev d))"
    by (simp only: rev_append)
  also have "\<dots> = d" by (simp only: takeWhile_dropWhile_id rev_rev_ident)
  finally have "d = trim x @ rev (takeWhile isWhiteSpace (rev d))"
    by (simp only: trim_def d_def)
  moreover have "list_all isWhiteSpace (rev (takeWhile isWhiteSpace (rev d)))"
    by (simp add: list_all_iff) (metis set_takeWhileD)
  ultimately show ?thesis unfolding d_def by blast
qed

lemma nows_append_ws: "list_all isWhiteSpace w \<Longrightarrow> nows (t @ w) = nows t"
proof -
  assume w: "list_all isWhiteSpace w"
  have "nows w = []" using w by (cases w) auto
  note nw = this
  show ?thesis
  proof (cases "\<forall>c\<in>set t. \<not> isWhiteSpace c")
    case True
    then have e: "nows t = t" by simp
    have "nows (t @ w) = t @ nows w" using True by (simp add: takeWhile_append)
    also have "\<dots> = t" by (simp only: nw append_Nil2)
    finally show ?thesis by (simp only: e)
  next
    case False
    then show ?thesis by (auto simp: takeWhile_append)
  qed
qed

lemma dropWhile_trim: "dropWhile isWhiteSpace (trim x) = trim x"
  using trim_ends [of x] by (auto simp: dropWhile_eq_self_iff)

lemma parseFloat_core:
  "parseFloat s =
     (case nows (dropWhile isWhiteSpace s) of
        [] \<Rightarrow> NaN
      | c # r \<Rightarrow>
          if c = MINUS then negate (parseUnsigned r)
          else if c = PLUS then parseUnsigned r
          else parseUnsigned (c # r))"
proof (cases "dropWhile isWhiteSpace s")
  case Nil show ?thesis unfolding parseFloat_def Nil by simp
next
  case (Cons c r)
  have c: "\<not> isWhiteSpace c" using hd_dropWhile [of isWhiteSpace s] Cons by simp
  have "parseUnsigned (c # nows r) = parseUnsigned (c # r)"
    using parseUnsigned_nows [of "c # r"] c by simp
  then show ?thesis unfolding parseFloat_def Cons using c by (simp add: parseUnsigned_nows)
qed

lemma parseFloat_trim: "parseFloat (trim x) = parseFloat x"
proof -
  obtain w where w: "dropWhile isWhiteSpace x = trim x @ w" "list_all isWhiteSpace w"
    using trim_decomp by blast
  have "nows (dropWhile isWhiteSpace (trim x)) = nows (dropWhile isWhiteSpace x)"
    using w by (simp add: dropWhile_trim nows_append_ws)
  then show ?thesis by (simp add: parseFloat_core)
qed

lemma parseFloat_Nil: "parseFloat [] = NaN"
  by (simp add: parseFloat_def)

lemma stripQuotes_withoutQuotes: "stripQuotes s = withoutQuotes s"
  by (cases s) (auto simp: stripQuotes_def withoutQuotes_def isQuote_def Let_def)

lemma amountText_filters:
  "amountText v =
   filter (\<lambda>c. c \<noteq> RUPEE \<and> c \<noteq> DOLLAR) (filter (\<lambda>c. c \<noteq> COMMA) (stripQuotes (trim v)))"
proof -
  have "(\<lambda>c. (c \<noteq> RUPEE \<and> c \<noteq> DOLLAR) \<and> c \<noteq> COMMA) = (\<lambda>c::nat. c \<notin> {COMMA, RUPEE, DOLLAR})"
    by auto
  then show ?thesis
    by (simp add: amountText_def withoutSymbols_def stripQuotes_withoutQuotes)
qed

lemma parseAmount_pipeline:
  "parseAmount (Some v) = numberOrZero (parseFloat (amountText v))"
proof -
  have e: "amountText v = [] \<Longrightarrow> ?thesis"
    by (simp add: parseAmount_def Let_def numberOrZero_def amountText_filters parseFloat_trim parseFloat_Nil)
  show ?thesis
  proof (cases "v = [] \<or> trim v = [] \<or> stripQuotes (trim v) = []")
    case True
    then have "amountText v = []" by (auto simp: amountText_filters stripQuotes_def)
    then show ?thesis by (rule e)
  next
    case False
    then show ?thesis
      by (simp add: parseAmount_def Let_def numberOrZero_def amountText_filters parseFloat_trim)
  qed
qed

lemma parseAmount_not_NaN: "parseAmount v \<noteq> NaN"
proof (cases v)
  case None then show ?thesis by (simp add: parseAmount_def)
next
  case (Some s) then show ?thesis by (simp add: parseAmount_pipeline numberOrZero_def)
qed

lemma scale10_nonneg: "0 \<le> q \<Longrightarrow> 0 \<le> scale10 q e"
  by (simp add: scale10_def)

lemma numberValue_sign: "0 \<le> q \<Longrightarrow> nonNegative (numberValue q)"
  by (simp add: numberValue_def)

lemma numberValue_not_NaN: "numberValue q \<noteq> NaN"
  by (simp add: numberValue_def)

lemma numberValue_zero: "numberValue 0 = Num 0"
  by (simp add: numberValue_def)

lemma numberValue_Num: "1 / 1000 \<le> q \<Longrightarrow> q \<le> 1000000000 \<Longrightarrow> numberValue q = Num q"
proof -
  assume a: "1 / 1000 \<le> q" and b: "q \<le> 1000000000"
  have "(1000000000::rat) < 2 ^ 1024 - 2 ^ 970" by simp
  then have 1: "\<not> 2 ^ 1024 - 2 ^ 970 \<le> q" using b by linarith
  have "(1::rat) / 2 ^ 1075 < 1 / 1000" by simp
  then have 2: "\<not> q \<le> 1 / 2 ^ 1075" using a by linarith
  show ?thesis using 1 2 by (simp only: numberValue_def if_False)
qed

lemma parseUnsigned_sign: "parseUnsigned t = NaN \<or> nonNegative (parseUnsigned t)"
  by (simp add: parseUnsigned_def Let_def scale10_nonneg numberValue_sign)

lemma parseFloat_sign: "\<not> leadingMinus x \<Longrightarrow> parseFloat x = NaN \<or> nonNegative (parseFloat x)"
proof (cases "dropWhile isWhiteSpace x")
  case Nil show ?thesis unfolding parseFloat_def Nil by simp
next
  case (Cons c r)
  assume "\<not> leadingMinus x"
  then have "c \<noteq> MINUS" unfolding leadingMinus_def Cons by simp
  then show ?thesis
    unfolding parseFloat_def Cons using parseUnsigned_sign [of r] parseUnsigned_sign [of "c # r"]
    by simp
qed

lemma parseAmount_sign: "\<not> leadingMinus (amountText v) \<Longrightarrow> nonNegative (parseAmount (Some v))"
  using parseFloat_sign [of "amountText v"]
  by (auto simp: parseAmount_pipeline numberOrZero_def)

lemma set_stripQuotes: "set (stripQuotes s) \<subseteq> set s"
  unfolding stripQuotes_def Let_def
  by (cases s) (auto dest: in_set_butlastD)

lemma set_amountText: "set (amountText v) \<subseteq> set v"
  using set_stripQuotes [of "trim v"] set_trim [of v] by (auto simp: amountText_filters)

lemma leadingMinus_set: "leadingMinus x \<Longrightarrow> MINUS \<in> set x"
proof -
  assume "leadingMinus x"
  then have "MINUS \<in> set (dropWhile isWhiteSpace x)"
    unfolding leadingMinus_def by (cases "dropWhile isWhiteSpace x") simp_all
  then show ?thesis by (rule set_dropWhileD)
qed

lemma parseAmount_no_minus: "MINUS \<notin> set v \<Longrightarrow> nonNegative (parseAmount (Some v))"
  using leadingMinus_set [of "amountText v"] set_amountText [of v]
  by (intro parseAmount_sign) auto

lemma parseAmount_None: "parseAmount None = Num 0"
  by (simp add: parseAmount_def)

lemmas amount_eval = parseAmount_def trim_def isWhiteSpace_def stripQuotes_def isQuote_def parseFloat_def
  parseUnsigned_def isDigit_def exponentPart_def scale10_def digitsValue_def Let_def
  numberValue_Num numberValue_zero

section \<open>Transactions and their ids\<close>

lemma normalizeTransaction_cases:
  "normalizeTransaction e raw headers =
     (if orEmpty (cell raw headers dateNames) = [] \<or> orEmpty (cell raw headers descNames) = [] then None
      else Some \<lparr>
        id' = generateId e,
        date = parseDate (orEmpty (cell raw headers dateNames)),
        valueDate = (if orEmpty (cell raw headers valueDateNames) = [] then None
                     else parseDate (orEmpty (cell raw headers valueDateNames))),
        description = cleanDescription (orEmpty (cell raw headers descNames)),
        reference = orEmpty (cell raw headers refNames),
        debit = parseAmount (cell raw headers debitNames),
        credit = parseAmount (cell raw headers creditNames),
        balance = parseAmount (cell raw headers balanceNames),
        amount = (if positive (parseAmount (cell raw headers creditNames))
                  then parseAmount (cell raw headers creditNames)
                  else negate (parseAmount (cell raw headers debitNames))),
        type' = (if positive (parseAmount (cell raw headers creditNames)) then Credit else Debit),
        category = None, subcategory = None, notes' = [] \<rparr>)"
  by (simp add: normalizeTransaction_def cell_def truthy_def Let_def)

lemma normalizeTransaction_env:
  "map_option withoutId (normalizeTransaction e1 raw headers) =
   map_option withoutId (normalizeTransaction e2 raw headers)"
  by (simp add: normalizeTransaction_cases withoutId_def)

lemma normalizeTransaction_id:
  "normalizeTransaction e raw headers = Some t \<Longrightarrow> id' t = generateId e"
  by (auto simp: normalizeTransaction_cases split: if_splits)

lemma parseRows_env:
  "map withoutId acc1 = map withoutId acc2 \<Longrightarrow>
   map withoutId (parseRows env1 headers acc1 rest) = map withoutId (parseRows env2 headers acc2 rest)"
proof (induction rest arbitrary: acc1 acc2)
  case Nil then show ?case by simp
next
  case (Cons line rest)
  let ?vals = "map trim (parseTabSeparatedLine line)"
  let ?raw = "forEachHeader [] (padValues headers ?vals) 0 headers"
  have len: "length acc1 = length acc2" using Cons.prems by (rule map_eq_imp_length_eq)
  show ?case
  proof (cases "list_all (\<lambda>v. v = []) ?vals")
    case True
    then show ?thesis using Cons.IH [OF Cons.prems] by (simp add: Let_def)
  next
    case False
    have env: "map_option withoutId (normalizeTransaction (env1 (length acc1)) ?raw headers) =
               map_option withoutId (normalizeTransaction (env2 (length acc2)) ?raw headers)"
      by (rule normalizeTransaction_env)
    show ?thesis
    proof (cases "normalizeTransaction (env1 (length acc1)) ?raw headers")
      case None
      then have "normalizeTransaction (env2 (length acc2)) ?raw headers = None" using env by simp
      then show ?thesis using None False Cons.IH [OF Cons.prems] by (simp add: Let_def)
    next
      case (Some t1)
      then obtain t2 where t2: "normalizeTransaction (env2 (length acc2)) ?raw headers = Some t2"
        and w: "withoutId t1 = withoutId t2" using env by (cases "normalizeTransaction (env2 (length acc2)) ?raw headers") auto
      have "map withoutId (acc1 @ [t1]) = map withoutId (acc2 @ [t2])" using Cons.prems w by simp
      then show ?thesis using Some t2 False Cons.IH [of "acc1 @ [t1]" "acc2 @ [t2]"] by (simp add: Let_def)
    qed
  qed
qed

lemma parseRows_ids:
  "map id' acc = map (\<lambda>n. generateId (env n)) [0..<length acc] \<Longrightarrow>
   map id' (parseRows env headers acc rest) =
   map (\<lambda>n. generateId (env n)) [0..<length (parseRows env headers acc rest)]"
proof (induction rest arbitrary: acc)
  case Nil then show ?case by simp
next
  case (Cons line rest)
  let ?vals = "map trim (parseTabSeparatedLine line)"
  let ?raw = "forEachHeader [] (padValues headers ?vals) 0 headers"
  show ?case
  proof (cases "list_all (\<lambda>v. v = []) ?vals")
    case True
    then show ?thesis using Cons.IH [OF Cons.prems] by (simp add: Let_def)
  next
    case False
    show ?thesis
    proof (cases "normalizeTransaction (env (length acc)) ?raw headers")
      case None
      then show ?thesis using False Cons.IH [OF Cons.prems] by (simp add: Let_def)
    next
      case (Some t)
      have "id' t = generateId (env (length acc))" using Some by (rule normalizeTransaction_id)
      then have "map id' (acc @ [t]) = map (\<lambda>n. generateId (env n)) [0..<length (acc @ [t])]"
        using Cons.prems by simp
      then show ?thesis using Some False Cons.IH [of "acc @ [t]"] by (simp add: Let_def)
    qed
  qed
qed

section \<open>Evaluation of concrete inputs\<close>

lemmas char_eval =
  isWhiteSpace_def [of "numeral k"] isDigit_def [of "numeral k"] isLower_def [of "numeral k"]
  isUpper_def [of "numeral k"] isWord_def [of "numeral k"] isLetter_def [of "numeral k"]
  isQuote_def [of "numeral k"] lowerUnits_def [of "numeral k"] upperChar_def [of "numeral k"] for k

lemmas string_eval = char_eval trim_def toLowerCase_def stripQuotes_def padStart0_def split_on_def
  digitsValue_def Let_def

lemmas regex_eval = one_def literalCI_def replaceAll_def sep3_def sep2_def reTry.simps

lemmas date_eval = parseDate_def tryDMY4_def tryDMY2_def tryDMonY4_def tryDMonY2_def tryISO_def
  reDMY4_def reDMY2_def reDMonY4sp_def reDMonY4_def reDMonY2_def reISO_def
  fullYear_def months_def

lemmas clean_eval = cleanDescription_def reTransfer_def reNoise_def reSpaces_def

lemmas header_eval = findHeaderRow_def hasDate_def hasDebit_def hasDescription_def requiredColumns_def
  descriptionColumns_def parseTabSeparatedLine_def

lemmas key_eval = findKey_def endsWord_def dateNames_def valueDateNames_def descNames_def refNames_def
  debitNames_def creditNames_def balanceNames_def getProp_def orEmpty_def truthy_def cell_def

lemmas number_eval = parseAmount_def parseFloat_def parseUnsigned_def exponentPart_def scale10_def
  numberValue_Num numberValue_zero

lemmas rows_eval = parseTSV_def normalizeMultiLineFields_def normalizeTransaction_def generateId_def
  nthOpt_def assign_def padValues_def constEnv_def decimal.simps

section \<open>The rows of a statement\<close>

lemma parseRows_step:
  "parseRows env headers acc (line # rest) =
     (if list_all (\<lambda>v. v = []) (map trim (parseTabSeparatedLine line)) then parseRows env headers acc rest
      else case normalizeTransaction (env (length acc)) (rawOf headers line) headers of
             None \<Rightarrow> parseRows env headers acc rest
           | Some t \<Rightarrow> parseRows env headers (acc @ [t]) rest)"
  by (simp add: rawOf_def Let_def)

lemma parseRows_list_all:
  "list_all P acc \<Longrightarrow>
   (\<And>e line t. line \<in> set rest \<Longrightarrow> normalizeTransaction e (rawOf headers line) headers = Some t \<Longrightarrow> P t) \<Longrightarrow>
   list_all P (parseRows env headers acc rest)"
proof (induction rest arbitrary: acc)
  case Nil then show ?case by simp
next
  case (Cons line rest)
  have rest: "P t" if "l \<in> set rest" "normalizeTransaction e (rawOf headers l) headers = Some t"
    for e l t using Cons.prems(2) [of l e t] that by simp
  show ?case
  proof (cases "normalizeTransaction (env (length acc)) (rawOf headers line) headers")
    case None
    then show ?thesis using Cons.IH [OF Cons.prems(1) rest] by (simp only: parseRows_step) simp
  next
    case (Some t)
    have "P t" using Cons.prems(2) [of line] Some by simp
    then have "list_all P (acc @ [t])" using Cons.prems(1) by simp
    then have "list_all P (parseRows env headers (acc @ [t]) rest)" using rest by (rule Cons.IH)
    then show ?thesis using Some Cons.IH [OF Cons.prems(1) rest] by (simp only: parseRows_step) simp
  qed
qed

lemma tsl_loop_avoid:
  "list_all (\<lambda>f. x \<notin> set f) result \<Longrightarrow> x \<notin> set current \<Longrightarrow> x \<notin> set s \<Longrightarrow>
   list_all (\<lambda>f. x \<notin> set f) (parseTabSeparatedLine_loop result current q s)"
proof (induction s arbitrary: result current q)
  case Nil then show ?case using set_trim [of current] by auto
next
  case (Cons c cs)
  have t: "x \<notin> set (trim current)" using Cons.prems(2) set_trim by blast
  show ?case using Cons.prems t by (simp add: Cons.IH)
qed

lemma forEachHeader_values:
  "(k, v) \<in> set (forEachHeader t values i hs) \<Longrightarrow> (k, v) \<in> set t \<or> v \<in> set values \<or> v = []"
proof (induction hs arbitrary: t i)
  case Nil then show ?case by simp
next
  case (Cons h hs)
  from Cons.prems have "(k, v) \<in> set (assign t h (orEmpty (nthOpt values i))) \<or> v \<in> set values \<or> v = []"
    by (auto dest: Cons.IH)
  then show ?case
    by (auto simp: assign_def orEmpty_def nthOpt_def split: if_splits)
qed

lemma rawOf_values: "(k, v) \<in> set (rawOf headers line) \<Longrightarrow> x \<notin> set line \<Longrightarrow> x \<notin> set v"
proof -
  assume kv: "(k, v) \<in> set (rawOf headers line)" and x: "x \<notin> set line"
  have f: "list_all (\<lambda>f. x \<notin> set f) (parseTabSeparatedLine line)"
    unfolding parseTabSeparatedLine_def using x by (intro tsl_loop_avoid) simp_all
  have "v \<in> set (padValues headers (map trim (parseTabSeparatedLine line))) \<or> v = []"
    using forEachHeader_values [OF kv [unfolded rawOf_def]] by simp
  then consider "v = []" | f where "f \<in> set (parseTabSeparatedLine line)" "v = trim f"
    by (auto simp: padValues_def)
  then show ?thesis
  proof cases
    case 1 then show ?thesis by simp
  next
    case 2
    then have "x \<notin> set f" using f by (simp add: list_all_iff)
    then show ?thesis using 2 set_trim [of f] by auto
  qed
qed

lemma cell_amount_nonneg:
  assumes "x = MINUS" "MINUS \<notin> set line"
  shows "nonNegative (parseAmount (cell (rawOf headers line) headers names))"
proof (cases "cell (rawOf headers line) headers names")
  case None then show ?thesis by (simp add: parseAmount_None)
next
  case (Some v)
  then have "\<exists>k. (k, v) \<in> set (rawOf headers line)"
    unfolding cell_def getProp_def by (blast dest: map_of_SomeD)
  then have "MINUS \<notin> set v" using assms(2) rawOf_values by blast
  then show ?thesis using Some by (simp add: parseAmount_no_minus)
qed

lemma set_normalizeMultiLineFields_loop:
  "set (normalizeMultiLineFields_loop result q s) \<subseteq> set result \<union> set s \<union> {SPACE}"
proof (induction s arbitrary: result q)
  case Nil show ?case by auto
next
  case (Cons c cs)
  show ?case
    using Cons.IH [of "result @ [c]" "\<not> q"] Cons.IH [of "result @ [SPACE]" q]
      Cons.IH [of "result @ [c]" q]
    by auto
qed

lemma set_split_loop: "p \<in> set (split_loop sep current s) \<Longrightarrow> set p \<subseteq> set current \<union> set s"
  by (induction s arbitrary: current) (fastforce split: if_splits)+

lemma set_lines:
  "line \<in> set (split_on NEWLINE (trim (normalizeMultiLineFields content))) \<Longrightarrow>
   set line \<subseteq> set content \<union> {SPACE}"
proof -
  assume "line \<in> set (split_on NEWLINE (trim (normalizeMultiLineFields content)))"
  then have "set line \<subseteq> set [] \<union> set (trim (normalizeMultiLineFields content))"
    unfolding split_on_def by (rule set_split_loop)
  then have "set line \<subseteq> set (trim (normalizeMultiLineFields content))" by simp
  also have "\<dots> \<subseteq> set (normalizeMultiLineFields content)" by (rule set_trim)
  also have "\<dots> \<subseteq> set content \<union> {SPACE}"
    unfolding normalizeMultiLineFields_def using set_normalizeMultiLineFields_loop [of "[]" False content]
    by simp
  finally show ?thesis .
qed

lemma findHeaderRow_loop_index: "findHeaderRow_loop k ls = Some (i, h) \<Longrightarrow> 0 \<le> i"
  by (induction ls arbitrary: k) (auto simp: Let_def split: if_splits)

lemma findHeaderRow_returns: "lines \<noteq> [] \<Longrightarrow> \<exists>i h. findHeaderRow lines = Inr (i, h) \<and> 0 \<le> i"
proof (cases "findHeaderRow_loop 0 (take (min (length lines) 50) lines)")
  case None
  assume "lines \<noteq> []"
  then show ?thesis using None by (cases lines) (simp_all add: findHeaderRow_def)
next
  case (Some found)
  obtain i h where f: "found = (i, h)" by (cases found)
  have "0 \<le> i" using Some f findHeaderRow_loop_index by blast
  then show ?thesis using Some f by (simp add: findHeaderRow_def)
qed

lemma parseTSV_cases:
  "parseTSV env content =
     (let lines = split_on NEWLINE (trim (normalizeMultiLineFields content)) in
      if length lines < 2 then Inl (Error (js ''Invalid TSV file: No data rows found''))
      else case findHeaderRow lines of
             Inl err \<Rightarrow> Inl err
           | Inr (i, headers) \<Rightarrow> Inr (parseRows env headers [] (drop (nat (i + 1)) lines)))"
proof -
  let ?lines = "split_on NEWLINE (trim (normalizeMultiLineFields content))"
  show ?thesis
  proof (cases "length ?lines < 2")
    case True then show ?thesis by (simp add: parseTSV_def Let_def)
  next
    case False
    then have "?lines \<noteq> []" by auto
    then obtain i h where "findHeaderRow ?lines = Inr (i, h)" "0 \<le> i"
      using findHeaderRow_returns by blast
    then show ?thesis using False by (simp add: parseTSV_def Let_def)
  qed
qed

lemma parseTSV_returns:
  "\<not> length (split_on NEWLINE (trim (normalizeMultiLineFields content))) < 2 \<Longrightarrow>
   \<exists>ts. parseTSV env content = Inr ts"
proof -
  let ?lines = "split_on NEWLINE (trim (normalizeMultiLineFields content))"
  assume 2: "\<not> length ?lines < 2"
  then have "?lines \<noteq> []" by auto
  then obtain i h where "findHeaderRow ?lines = Inr (i, h)"
    using findHeaderRow_returns by blast
  then show ?thesis using 2 by (simp add: parseTSV_cases Let_def)
qed

lemma parseTSV_list_all:
  assumes "parseTSV env content = Inr ts"
    and "\<And>e line headers t. set line \<subseteq> set content \<union> {SPACE} \<Longrightarrow>
           normalizeTransaction e (rawOf headers line) headers = Some t \<Longrightarrow> P t"
  shows "list_all P ts"
proof -
  let ?lines = "split_on NEWLINE (trim (normalizeMultiLineFields content))"
  have l: "set line \<subseteq> set content \<union> {SPACE}" if "line \<in> set (drop n ?lines)" for line n
    using that set_lines [of line content] by (auto dest: in_set_dropD)
  have "list_all P (parseRows env headers [] (drop n ?lines))" for headers n
  proof (rule parseRows_list_all)
    show "list_all P []" by simp
  next
    fix e line t
    assume "line \<in> set (drop n ?lines)" "normalizeTransaction e (rawOf headers line) headers = Some t"
    then show "P t" using l assms(2) by blast
  qed
  then show ?thesis using assms(1)
    by (auto simp: parseTSV_cases Let_def split: if_splits sum.splits prod.splits)
qed

lemma statementNegative_parse:
  "parseTSV env statementNegative =
     Inr [\<lparr>id' = generateId (env 0), date = Some (js ''2024-01-01''), valueDate = None,
           description = js ''Shop'', reference = [], debit = Num (- 5), credit = Num 0,
           balance = Num 0, amount = Num 5, type' = Debit, category = None, subcategory = None,
           notes' = []\<rparr>]"
  unfolding statementNegative_def
  by (simp add: string_eval regex_eval date_eval clean_eval header_eval key_eval number_eval
      parseTSV_def normalizeMultiLineFields_def normalizeTransaction_def nthOpt_def assign_def
      padValues_def)

lemma blank_row_rejected:
  assumes "list_all (\<lambda>v. v = []) (map trim (parseTabSeparatedLine line))"
  shows "normalizeTransaction e (rawOf headers line) headers = None"
proof -
  have v: "v = []" if "(k, v) \<in> set (rawOf headers line)" for k v
  proof -
    have "v \<in> set (padValues headers (map trim (parseTabSeparatedLine line))) \<or> v = []"
      using forEachHeader_values [OF that [unfolded rawOf_def]] by simp
    then show ?thesis using assms by (auto simp: padValues_def list_all_iff)
  qed
  have "orEmpty (cell (rawOf headers line) headers dateNames) = []"
  proof (cases "cell (rawOf headers line) headers dateNames")
    case None then show ?thesis by (simp add: orEmpty_def)
  next
    case (Some x)
    then have "\<exists>k. (k, x) \<in> set (rawOf headers line)"
      unfolding cell_def getProp_def by (blast dest: map_of_SomeD)
    then show ?thesis using v Some by (auto simp: orEmpty_def)
  qed
  then show ?thesis by (simp add: normalizeTransaction_cases)
qed

lemma parseRows_emit:
  "normalizeTransaction (env (length acc)) (rawOf headers line) headers = Some t \<Longrightarrow>
   parseRows env headers acc (line # rest) = parseRows env headers (acc @ [t]) rest"
proof -
  assume t: "normalizeTransaction (env (length acc)) (rawOf headers line) headers = Some t"
  have "\<not> list_all (\<lambda>v. v = []) (map trim (parseTabSeparatedLine line))"
    using blank_row_rejected [of line "env (length acc)" headers] t by auto
  then show ?thesis using t by (simp only: parseRows_step) simp
qed

section \<open>Sample records\<close>

lemma findKey_case_mapping:
  "findKey [js ''Date'' @ [8490]] dateNames = None"
  "findKey [js ''DATE'' @ [304]] dateNames = None"
  "findKey [js ''Date'' @ [233]] dateNames = Some (js ''Date'' @ [233])"
  "findKey [js ''Txn Date''] dateNames = Some (js ''Txn Date'')"
  "findKey [js ''Value Date'', js '' DATE ''] dateNames = Some (js '' DATE '')"
  "findKey [js ''Value Date''] dateNames = Some (js ''Value Date'')"
  "findKey [js ''Update'', js ''Description''] dateNames = None"
  "findKey [js ''Description''] creditNames = None"
  "findKey [js ''Description'', js ''Cr.''] creditNames = Some (js ''Cr.'')"
  by (simp_all add: string_eval key_eval)

lemma rawSample_cells:
  "cell rawSample headersSample dateNames = Some (js ''someday'')"
  "cell rawSample headersSample descNames = Some (js ''Shop'')"
  "cell rawSample headersSample valueDateNames = Some (js ''soon'')"
  "cell rawSample headersSample debitNames = Some (js ''abc'')"
  "cell [] headersSample dateNames = None"
  by (simp_all add: rawSample_def headersSample_def string_eval key_eval)

lemma rawOf_rowSample: "rawOf headersSample rowSample = rawSample"
  by (simp add: rawOf_def rowSample_def headersSample_def rawSample_def parseTabSeparatedLine_def
      padValues_def nthOpt_def assign_def orEmpty_def string_eval)

lemma unparseable_dates: "parseDate (js ''someday'') = None" "parseDate (js ''soon'') = None"
  by (simp_all add: string_eval regex_eval date_eval)

lemma parseFloat_values:
  "parseFloat (js ''  12.5e-1abc'') = Num (5 / 4)"
  "parseFloat (js ''-.5'') = Num (- (1 / 2))"
  "parseFloat (js ''+3'') = Num 3"
  "parseFloat (js ''5.'') = Num 5"
  "parseFloat (js ''1e'') = Num 1"
  "parseFloat (js ''1e+'') = Num 1"
  "parseFloat (js ''2E+2'') = Num 200"
  "parseFloat (js ''.'') = NaN"
  "parseFloat (js ''e5'') = NaN"
  "parseFloat (js ''- 5'') = NaN"
  "parseFloat (js ''Infinity'') = PosInfinity"
  "parseFloat (js ''-Infinityx'') = NegInfinity"
  "parseFloat (js ''infinity'') = NaN"
  by (simp_all add: string_eval number_eval)

lemma parseFloat_range:
  "parseFloat (js ''1e309'') = PosInfinity"
  "parseFloat (js ''-1e309'') = NegInfinity"
  "parseFloat (js ''1e-324'') = Num 0"
  "positive (parseFloat (js ''3e-324''))"
  by (simp_all add: string_eval parseFloat_def parseUnsigned_def exponentPart_def scale10_def
      numberValue_def)

lemma statementPlain_lines:
  "\<not> length (split_on NEWLINE (trim (normalizeMultiLineFields statementPlain))) < 2"
  by (simp add: statementPlain_def string_eval normalizeMultiLineFields_def)

section \<open>The pattern matcher\<close>

declare reTry.simps [simp del]

lemma takeWhile_run:
  "list_all P a \<Longrightarrow> (case rest of [] \<Rightarrow> True | c # cs \<Rightarrow> \<not> P c) \<Longrightarrow> takeWhile P (a @ rest) = a"
  by (cases rest) (simp_all add: list_all_iff takeWhile_append2)

lemma dropWhile_run:
  "list_all P a \<Longrightarrow> (case rest of [] \<Rightarrow> True | c # cs \<Rightarrow> \<not> P c) \<Longrightarrow> dropWhile P (a @ rest) = rest"
  by (cases rest) (simp_all add: list_all_iff dropWhile_append2)

lemma align:
  assumes "a @ x # r = a' @ x' # r'" "list_all P a" "list_all P a'" "\<not> P x" "\<not> P x'"
  shows "a = a' \<and> x = x' \<and> r = r'"
proof -
  have "a = takeWhile P (a @ x # r)" using assms(2,4) by (simp add: takeWhile_run)
  also have "\<dots> = takeWhile P (a' @ x' # r')" by (simp only: assms(1))
  also have "\<dots> = a'" using assms(3,5) by (simp add: takeWhile_run)
  finally have "a = a'" .
  then show ?thesis using assms(1) by simp
qed

lemma reTry_first:
  "lo \<le> k \<Longrightarrow> reMatch eol its (drop k s) = Some caps \<Longrightarrow>
   reTry eol its s lo k = Some (take k s # caps)"
  by (subst reTry.simps) simp

lemma reMatch_item:
  assumes "bounded (cls, lo, hi) a" "case rest of [] \<Rightarrow> True | c # cs \<Rightarrow> \<not> inClass cls c"
    and "reMatch eol its rest = Some caps"
  shows "reMatch eol ((cls, lo, hi) # its) (a @ rest) = Some (a # caps)"
proof -
  have a: "list_all (inClass cls) a" "lo \<le> length a" using assms(1) by (simp_all add: bounded_def)
  have n: "length (takeWhile (inClass cls) (a @ rest)) = length a"
    using a(1) assms(2) by (simp add: takeWhile_run)
  have k: "(case hi of None \<Rightarrow> length a | Some h \<Rightarrow> min h (length a)) = length a"
    using assms(1) by (cases hi) (simp_all add: bounded_def)
  have "reTry eol its (a @ rest) lo (length a) = Some (take (length a) (a @ rest) # caps)"
    using a(2) assms(3) by (intro reTry_first) simp_all
  then show ?thesis by (simp add: n k)
qed

lemma reTry_sound:
  "reTry eol its s lo k = Some r \<Longrightarrow>
   \<exists>j caps. r = take j s # caps \<and> lo \<le> j \<and> j \<le> k \<and> reMatch eol its (drop j s) = Some caps"
proof (induction k)
  case 0
  then show ?case by (subst (asm) reTry.simps) (auto split: if_splits option.splits)
next
  case (Suc k)
  show ?case
  proof (cases "reMatch eol its (drop (Suc k) s)")
    case (Some caps)
    then have "r = take (Suc k) s # caps" "lo \<le> Suc k"
      using Suc.prems by (subst (asm) reTry.simps; simp split: if_splits)+
    then show ?thesis using Some by (intro exI [of _ "Suc k"] exI [of _ caps]) simp
  next
    case None
    then have "reTry eol its s lo k = Some r" using Suc.prems
      by (subst (asm) reTry.simps) (auto split: if_splits)
    then show ?thesis using Suc.IH by (metis le_Suc_eq)
  qed
qed

lemma reMatch_sound:
  "reMatch eol its s = Some caps \<Longrightarrow>
   list_all2 bounded its caps \<and> (\<exists>rest. s = concat caps @ rest \<and> (eol \<longrightarrow> rest = []))"
proof (induction its arbitrary: s caps)
  case Nil
  then show ?case by (auto split: if_splits)
next
  case (Cons it its)
  obtain cls lo hi where it: "it = (cls, lo, hi)" by (cases it)
  define n where "n = length (takeWhile (inClass cls) s)"
  define kmax where "kmax = (case hi of None \<Rightarrow> n | Some h \<Rightarrow> min h n)"
  have "reTry eol its s lo kmax = Some caps"
    using Cons.prems unfolding it n_def kmax_def by (simp add: Let_def)
  then obtain j caps' where j: "caps = take j s # caps'" "lo \<le> j" "j \<le> kmax"
      "reMatch eol its (drop j s) = Some caps'"
    using reTry_sound by blast
  have kn: "kmax \<le> n" "case hi of None \<Rightarrow> True | Some h \<Rightarrow> kmax \<le> h"
    by (cases hi; simp add: kmax_def)+
  have jn: "j \<le> n" using j(3) kn(1) by simp
  then have "take j s = take j (takeWhile (inClass cls) s)"
    unfolding n_def by (metis append_eq_conv_conj takeWhile_dropWhile_id take_append min.absorb2 take_all_iff le_refl append_take_drop_id take_take min.commute)
  then have "list_all (inClass cls) (take j s)"
    by (simp add: list_all_iff) (metis in_set_takeD set_takeWhileD)
  moreover have "length (take j s) = j" using jn unfolding n_def
    by (metis length_take min.absorb2 length_takeWhile_le le_trans)
  ultimately have b: "bounded it (take j s)"
    using j(2,3) kn(2) by (cases hi) (auto simp: bounded_def it)
  obtain rest where r: "list_all2 bounded its caps'" "drop j s = concat caps' @ rest" "eol \<longrightarrow> rest = []"
    using Cons.IH [OF j(4)] by blast
  have "s = concat caps @ rest" using r(2) j(1) by (metis append_take_drop_id append.assoc concat.simps(2))
  then show ?case using b r j(1) by auto
qed

lemma separated_tl: "separated (it # its) \<Longrightarrow> separated its"
  by (cases "(it # its)" rule: separated.cases) simp_all

lemma separated_lo: "separated ((cls, lo, hi) # its) \<Longrightarrow> 0 < lo"
  by (cases "((cls, lo, hi) # its)" rule: separated.cases) simp_all

lemma munch_head:
  assumes "separated ((cls, lo, hi) # its)" "inClass cls c" "munch its (c # cs) = Some caps"
  shows False
proof (cases its)
  case Nil then show False using assms(3) by simp
next
  case (Cons it' its')
  obtain cls' lo' hi' where it': "it' = (cls', lo', hi')" by (cases it')
  have d: "\<not> inClass cls' c" using assms(1,2) unfolding Cons it' by auto
  have "separated ((cls', lo', hi') # its')" using assms(1) unfolding Cons it' by simp
  then have l: "0 < lo'" by (rule separated_lo)
  have "bounded (cls', lo', hi') (takeWhile (inClass cls') (c # cs))"
    using assms(3) unfolding Cons it' by (simp split: if_splits)
  then show False using d l by (simp add: bounded_def)
qed

lemma reMatch_munch: "separated its \<Longrightarrow> reMatch True its s = munch its s"
proof (induction its arbitrary: s)
  case Nil show ?case by simp
next
  case (Cons it its)
  obtain cls lo hi where it: "it = (cls, lo, hi)" by (cases it)
  have IH: "reMatch True its t = munch its t" for t
    using Cons.IH [OF separated_tl [OF Cons.prems]] .
  define a where "a = takeWhile (inClass cls) s"
  define r where "r = dropWhile (inClass cls) s"
  have s: "a @ r = s" by (simp add: a_def r_def)
  have hr: "case r of [] \<Rightarrow> True | c # cs \<Rightarrow> \<not> inClass cls c"
  proof (cases r)
    case Nil then show ?thesis by simp
  next
    case (Cons c cs)
    then have "dropWhile (inClass cls) s \<noteq> []" by (simp add: r_def)
    then have "\<not> inClass cls (hd (dropWhile (inClass cls) s))" by (rule hd_dropWhile)
    then show ?thesis using Cons by (simp add: r_def [symmetric])
  qed
  have unfold: "munch (it # its) s =
      (if bounded (cls, lo, hi) a then map_option (\<lambda>caps. a # caps) (munch its r) else None)"
    by (simp add: it a_def r_def)
  show ?case
  proof (cases "bounded (cls, lo, hi) a \<and> munch its r \<noteq> None")
    case True
    then obtain caps where caps: "munch its r = Some caps" by auto
    have b: "bounded (cls, lo, hi) a" using True by simp
    have "reMatch True its r = Some caps" using IH caps by simp
    with b hr have "reMatch True ((cls, lo, hi) # its) (a @ r) = Some (a # caps)"
      by (rule reMatch_item)
    then have 1: "reMatch True (it # its) s = Some (a # caps)" by (simp only: s it)
    have 2: "munch (it # its) s = Some (a # caps)" unfolding unfold using caps b by simp
    show ?thesis by (simp only: 1 2)
  next
    case False
    have "reMatch True ((cls, lo, hi) # its) s = None"
    proof (rule ccontr)
      assume "reMatch True ((cls, lo, hi) # its) s \<noteq> None"
      then obtain caps where m: "reMatch True ((cls, lo, hi) # its) s = Some caps" by auto
      define kmax where "kmax = (case hi of None \<Rightarrow> length a | Some h \<Rightarrow> min h (length a))"
      have "reTry True its s lo kmax = Some caps"
        using m unfolding kmax_def a_def by (simp add: Let_def)
      then obtain j caps' where j: "caps = take j s # caps'" "lo \<le> j" "j \<le> kmax"
          "reMatch True its (drop j s) = Some caps'"
        using reTry_sound by blast
      have kn: "kmax \<le> length a" "case hi of None \<Rightarrow> True | Some h \<Rightarrow> kmax \<le> h"
        by (cases hi; simp add: kmax_def)+
      have jn: "j \<le> length a" using j(3) kn(1) by simp
      have mj: "munch its (drop j s) = Some caps'" using IH j(4) by simp
      have ja: "j = length a"
      proof (rule ccontr)
        assume "j \<noteq> length a"
        then have lt: "j < length a" using jn by simp
        have "a ! j \<in> set a" using lt by simp
        then have c: "inClass cls (a ! j)" unfolding a_def by (auto dest: set_takeWhileD)
        have "drop j s = a ! j # drop (Suc j) s"
          using lt s by (metis Cons_nth_drop_Suc length_append nth_append trans_less_add1)
        then show False using munch_head [OF _ c] mj Cons.prems it by simp
      qed
      then have "take j s = a" "drop j s = r" using s by auto
      moreover have "bounded (cls, lo, hi) a"
        using j(2,3) kn(2) ja by (cases hi) (auto simp: bounded_def a_def list_all_iff dest: set_takeWhileD)
      ultimately show False using False mj by simp
    qed
    moreover have "munch (it # its) s = None" using False unfolding unfold by auto
    ultimately show ?thesis by (simp only: it)
  qed
qed

lemma munch_last: "munch [(cls, lo, hi)] s = (if bounded (cls, lo, hi) s then Some [s] else None)"
proof (cases "list_all (inClass cls) s")
  case True
  then have e: "takeWhile (inClass cls) s = s" "dropWhile (inClass cls) s = []"
    by (simp_all add: list_all_iff)
  show ?thesis unfolding munch.simps e by simp
next
  case False
  then have "dropWhile (inClass cls) s \<noteq> []" by (simp add: list_all_iff)
  then have m: "munch [] (dropWhile (inClass cls) s) = None" by (simp only: munch.simps if_False)
  have nb: "\<not> bounded (cls, lo, hi) s" using False by (simp add: bounded_def)
  show ?thesis unfolding munch.simps(2) m using nb by simp
qed

lemma bounded_takeWhile:
  "bounded (cls, lo, hi) (takeWhile (inClass cls) s) \<longleftrightarrow>
   lo \<le> length (takeWhile (inClass cls) s) \<and>
   (case hi of None \<Rightarrow> True | Some h \<Rightarrow> length (takeWhile (inClass cls) s) \<le> h)"
  by (auto simp: bounded_def list_all_iff dest: set_takeWhileD)

lemma munch_five:
  "munch [(A, la, ha), (S, ls, hs), (B, lb, hb), (S', ls', hs'), (C, lc, hc)] s =
     (case runs [inClass A, inClass S, inClass B, inClass S'] s of
        [a, x, b, y, c] \<Rightarrow>
          if bounded (A, la, ha) a \<and> bounded (S, ls, hs) x \<and> bounded (B, lb, hb) b \<and>
             bounded (S', ls', hs') y \<and> bounded (C, lc, hc) c
          then Some [a, x, b, y, c] else None
      | _ \<Rightarrow> None)"
  apply (subst munch.simps(2))
  apply (subst munch.simps(2))
  apply (subst munch.simps(2))
  apply (subst munch.simps(2))
  apply (subst munch_last)
  apply simp
  done

section \<open>Dates\<close>

lemma digit_word: "isDigit c \<Longrightarrow> isWord c"
  by (simp add: isWord_def)

lemma sep_not_word: "inClass sep3 c \<Longrightarrow> \<not> isWord c" "inClass sep2 c \<Longrightarrow> \<not> isWord c"
  by (auto simp: sep3_def sep2_def isWord_def isLower_def isUpper_def isDigit_def)

lemma sep2_sep3: "inClass sep2 c \<Longrightarrow> inClass sep3 c"
  by (auto simp: sep3_def sep2_def)

lemma word_not_space: "isWord c \<Longrightarrow> \<not> isWhiteSpace c" "isWord c \<Longrightarrow> \<not> isQuote c"
  by (auto simp: isWord_def isLower_def isUpper_def isDigit_def isWhiteSpace_def isQuote_def)

lemma digits_word: "digits lo hi ds \<Longrightarrow> list_all isWord ds"
  by (auto simp: digits_def list_all_iff digit_word)

lemma digits_hd: "digits lo hi ds \<Longrightarrow> 0 < lo \<Longrightarrow> ds \<noteq> [] \<and> isDigit (hd ds)"
  by (cases ds) (auto simp: digits_def)

lemma digits_bounded: "digits lo hi ds \<longleftrightarrow> bounded (Digit, lo, Some hi) ds"
  by (auto simp: digits_def bounded_def list_all_iff)

lemma bounded_one: "bounded (one cls) cap \<longleftrightarrow> (\<exists>x. cap = [x] \<and> inClass cls x)"
proof -
  have "length cap = 1 \<longleftrightarrow> (\<exists>x. cap = [x])" by (cases cap) auto
  then show ?thesis by (auto simp: bounded_def one_def)
qed

lemma cleaned_word:
  assumes "s \<noteq> []" "isWord (hd s)" "isWord (last s)"
  shows "trim (stripQuotes (trim s)) = s"
proof -
  have t: "trim s = s" using assms by (intro trim_fix) (simp add: word_not_space)
  have "stripQuotes s = s"
    using assms by (cases s) (auto simp: stripQuotes_def word_not_space)
  then show ?thesis by (simp add: t)
qed

lemma reMatch_five:
  assumes "bounded (A, la, ha) a" "inClass S x" "bounded (B, lb, hb) b" "inClass S' y"
    "bounded (C, lc, hc) c"
    and "\<not> inClass A x" "b \<noteq> []" "\<not> inClass S (hd b)" "\<not> inClass B y" "c \<noteq> []" "\<not> inClass S' (hd c)"
  shows "reMatch True [(A, la, ha), one S, (B, lb, hb), one S', (C, lc, hc)] (a @ [x] @ b @ [y] @ c) =
         Some [a, [x], b, [y], c]"
proof -
  have hb: "case b @ [y] @ c of [] \<Rightarrow> True | z # zs \<Rightarrow> \<not> inClass S z"
    using assms(7,8) by (cases b) simp_all
  have hc: "case c of [] \<Rightarrow> True | z # zs \<Rightarrow> \<not> inClass S' z"
    using assms(10,11) by (cases c) simp_all
  have bx: "bounded (S, 1, Some 1) [x]" "bounded (S', 1, Some 1) [y]"
    using assms(2,4) by (simp_all add: bounded_def)
  have e: "reMatch True [] [] = Some []" by simp
  have "reMatch True [(C, lc, hc)] (c @ []) = Some [c]"
    by (rule reMatch_item [OF assms(5) _ e]) simp
  then have 5: "reMatch True [(C, lc, hc)] c = Some [c]" by (simp only: append_Nil2)
  have 4: "reMatch True [(S', 1, Some 1), (C, lc, hc)] ([y] @ c) = Some [[y], c]"
    using bx(2) hc 5 by (rule reMatch_item)
  have 3: "reMatch True [(B, lb, hb), (S', 1, Some 1), (C, lc, hc)] (b @ [y] @ c) = Some [b, [y], c]"
    by (rule reMatch_item [OF assms(3) _ 4]) (simp add: assms(9))
  have 2: "reMatch True [(S, 1, Some 1), (B, lb, hb), (S', 1, Some 1), (C, lc, hc)] ([x] @ b @ [y] @ c) =
           Some [[x], b, [y], c]"
    using bx(1) hb 3 by (rule reMatch_item)
  show ?thesis
    unfolding one_def by (rule reMatch_item [OF assms(1) _ 2]) (simp add: assms(6))
qed

lemma reMatch_five_shape:
  assumes m: "reMatch True [(A, la, ha), one S, (B, lb, hb), one S', (C, lc, hc)] (a @ [x] @ b @ [y] @ c) = Some caps"
    and w: "list_all W a" "list_all W b" "list_all W c" "\<not> W x" "\<not> W y"
    and cls: "\<And>z. inClass A z \<Longrightarrow> W z" "\<And>z. inClass B z \<Longrightarrow> W z" "\<And>z. inClass C z \<Longrightarrow> W z"
      "\<And>z. inClass S z \<Longrightarrow> \<not> W z" "\<And>z. inClass S' z \<Longrightarrow> \<not> W z"
  shows "caps = [a, [x], b, [y], c] \<and> bounded (A, la, ha) a \<and> bounded (B, lb, hb) b \<and> bounded (C, lc, hc) c"
proof -
  from reMatch_sound [OF m]
  obtain c0 c1 c2 c3 c4 where caps: "caps = [c0, c1, c2, c3, c4]"
    and b: "bounded (A, la, ha) c0" "bounded (one S) c1" "bounded (B, lb, hb) c2" "bounded (one S') c3"
      "bounded (C, lc, hc) c4"
    and s: "a @ [x] @ b @ [y] @ c = concat caps"
    by (auto simp: list_all2_Cons1)
  obtain x1 x3 where x: "c1 = [x1]" "inClass S x1" "c3 = [x3]" "inClass S' x3"
    using b(2,4) by (auto simp: bounded_one)
  have wc: "list_all W c0" "list_all W c2" "list_all W c4"
    using b(1,3,5) cls(1-3) by (auto simp: bounded_def list_all_iff)
  have nx: "\<not> W x1" "\<not> W x3" using x cls(4,5) by auto
  have "a @ x # (b @ y # c) = c0 @ x1 # (c2 @ x3 # c4)" using s caps x by simp
  then have 1: "a = c0 \<and> x = x1 \<and> b @ y # c = c2 @ x3 # c4"
    using w(1,4) wc(1) nx(1) by (intro align [of _ _ _ _ _ _ W]) simp_all
  then have "b = c2 \<and> y = x3 \<and> c = c4"
    using w(2,5) wc(2) nx(2) by (intro align [of _ _ _ _ _ _ W]) simp_all
  then show ?thesis using 1 caps x b by simp
qed



lemma date_text_ends:
  assumes "list_all isWord d" "d \<noteq> []" "list_all isWord y" "y \<noteq> []"
  shows "d @ [s1] @ m @ [s2] @ y \<noteq> [] \<and> isWord (hd (d @ [s1] @ m @ [s2] @ y)) \<and>
         isWord (last (d @ [s1] @ m @ [s2] @ y))"
  using assms by (cases d; cases y rule: rev_cases) (auto simp: list_all_iff)

lemma parseDate_firstMatch:
  "parseDate s =
     (if s = [] \<or> trim (stripQuotes (trim s)) = [] then None
      else firstMatch [tryDMY4, tryDMY2, tryDMonY4 reDMonY4sp, tryDMonY4 reDMonY4, tryDMonY2, tryISO]
             (trim (stripQuotes (trim s))))"
  by (simp add: parseDate_def Let_def split: option.splits)

lemma months_key: "map_of months k = Some v \<Longrightarrow> length k = 3 \<and> list_all isLower k \<and> 107 \<notin> set k"
  by (auto simp: months_def char_eval split: if_splits)

lemma lower_word:
  assumes "c \<in> set mon" "list_all isLower (toLowerCase mon)" "107 \<notin> set (toLowerCase mon)"
  shows "length (lowerUnits c) = 1 \<and> isWord c"
proof -
  have sub: "set (lowerUnits c) \<subseteq> set (toLowerCase mon)"
    using assms(1) by (auto simp: toLowerCase_def)
  then have l: "\<forall>x \<in> set (lowerUnits c). isLower x \<and> x \<noteq> 107"
    using assms(2,3) by (auto simp: list_all_iff)
  show ?thesis
  proof (cases "isUpper c")
    case True then show ?thesis by (simp add: lowerUnits_def isWord_def)
  next
    case False
    have "c \<noteq> 8490" using l False by (auto simp: lowerUnits_def)
    moreover have "c \<noteq> 304" using l False by (auto simp: lowerUnits_def isLower_def)
    ultimately have "lowerUnits c = [c]" using False by (simp add: lowerUnits_def)
    then show ?thesis using l by (simp add: isWord_def)
  qed
qed

lemma length_toLowerCase:
  "\<forall>c \<in> set mon. length (lowerUnits c) = 1 \<Longrightarrow> length (toLowerCase mon) = length mon"
  by (induction mon) (simp_all add: toLowerCase_def)

lemma month_text:
  assumes "map_of months (toLowerCase mon) = Some mm"
  shows "bounded (WordChar, 3, Some 3) mon" "list_all isWord mon" "length mon = 3"
proof -
  have k: "length (toLowerCase mon) = 3" "list_all isLower (toLowerCase mon)"
    "107 \<notin> set (toLowerCase mon)"
    using months_key [OF assms] by simp_all
  have u: "\<forall>c \<in> set mon. length (lowerUnits c) = 1 \<and> isWord c"
    using lower_word [OF _ k(2,3)] by blast
  then show l: "length mon = 3" using k(1) length_toLowerCase [of mon] by simp
  show w: "list_all isWord mon" using u by (simp add: list_all_iff)
  show "bounded (WordChar, 3, Some 3) mon" using l w by (simp add: bounded_def list_all_iff)
qed

lemma try_none:
  "reMatch True reDMY4 c = None \<Longrightarrow> tryDMY4 c = None"
  "reMatch True reDMY2 c = None \<Longrightarrow> tryDMY2 c = None"
  "reMatch True p c = None \<Longrightarrow> tryDMonY4 p c = None"
  "reMatch True reDMonY2 c = None \<Longrightarrow> tryDMonY2 c = None"
  "reMatch True reISO c = None \<Longrightarrow> tryISO c = None"
  by (simp_all add: tryDMY4_def tryDMY2_def tryDMonY4_def tryDMonY2_def tryISO_def)

lemma five_none:
  assumes w: "list_all isWord a" "list_all isWord b" "list_all isWord c" "\<not> isWord x" "\<not> isWord y"
    and cls: "A = Digit \<or> A = WordChar" "B = Digit \<or> B = WordChar" "C = Digit \<or> C = WordChar"
      "S = sep3 \<or> S = sep2" "S' = sep3 \<or> S' = sep2"
    and n: "\<not> (bounded (A, la, ha) a \<and> bounded (B, lb, hb) b \<and> bounded (C, lc, hc) c)"
  shows "reMatch True [(A, la, ha), one S, (B, lb, hb), one S', (C, lc, hc)] (a @ [x] @ b @ [y] @ c) = None"
proof (rule ccontr)
  assume "reMatch True [(A, la, ha), one S, (B, lb, hb), one S', (C, lc, hc)] (a @ [x] @ b @ [y] @ c) \<noteq> None"
  then obtain caps where m:
    "reMatch True [(A, la, ha), one S, (B, lb, hb), one S', (C, lc, hc)] (a @ [x] @ b @ [y] @ c) = Some caps"
    by blast
  have "bounded (A, la, ha) a \<and> bounded (B, lb, hb) b \<and> bounded (C, lc, hc) c"
    using reMatch_five_shape [OF m w] cls sep_not_word digit_word by fastforce
  then show False using n by simp
qed

lemma spaced_none:
  assumes "digits 1 2 d" "\<not> isWord s1" "\<not> isWhiteSpace s1"
  shows "reMatch True reDMonY4sp (d @ s1 # rest) = None"
proof (rule ccontr)
  assume "reMatch True reDMonY4sp (d @ s1 # rest) \<noteq> None"
  then obtain caps where m: "reMatch True reDMonY4sp (d @ s1 # rest) = Some caps" by blast
  from reMatch_sound [OF m]
  obtain c0 c1 cs where caps: "caps = c0 # c1 # cs"
    and b: "bounded (Digit, 1, Some 2) c0" "bounded (Space, 1, None) c1"
    and s: "d @ s1 # rest = concat caps"
    by (auto simp: reDMonY4sp_def list_all2_Cons1)
  obtain w c1' where c1: "c1 = w # c1'" "isWhiteSpace w"
    using b(2) by (cases c1) (auto simp: bounded_def)
  have "d @ s1 # rest = c0 @ w # (c1' @ concat cs)" using s caps c1 by simp
  moreover have "list_all isDigit d" "list_all isDigit c0"
    using assms(1) b(1) by (simp_all add: digits_def bounded_def list_all_iff)
  moreover have "\<not> isDigit s1" "\<not> isDigit w"
    using assms(2) c1(2) digit_word digit_not_ws by blast+
  ultimately have "s1 = w" using align [of d s1 rest c0 w _ isDigit] by blast
  then show False using c1(2) assms(3) by simp
qed

lemma parseDate_two_digit_year:
  assumes "digits 1 2 d" "digits 1 2 m" "digits 2 2 y" "inClass sep3 s1" "inClass sep3 s2"
  shows "parseDate (d @ [s1] @ m @ [s2] @ y) =
         Some (century y @ y @ [MINUS] @ padStart0 2 m @ [MINUS] @ padStart0 2 d)"
proof -
  let ?s = "d @ [s1] @ m @ [s2] @ y"
  have ne: "d \<noteq> []" "m \<noteq> []" "y \<noteq> []" "isDigit (hd m)" "isDigit (hd y)"
    using digits_hd [OF assms(1)] digits_hd [OF assms(2)] digits_hd [OF assms(3)] by simp_all
  have w: "list_all isWord d" "list_all isWord m" "list_all isWord y"
    using assms(1-3) digits_word by blast+
  have nw: "\<not> isWord s1" "\<not> isWord s2" using assms(4,5) sep_not_word by blast+
  have e: "?s \<noteq> []" "isWord (hd ?s)" "isWord (last ?s)"
    using date_text_ends [OF w(1) ne(1) w(3) ne(3), of s1 m s2] by blast+
  have c: "trim (stripQuotes (trim ?s)) = ?s" using e by (rule cleaned_word)
  have "\<not> bounded (Digit, 4, Some 4) y" using assms(3) by (simp add: digits_def bounded_def)
  then have "reMatch True reDMY4 ?s = None"
    unfolding reDMY4_def using w nw by (intro five_none) simp_all
  then have 1: "tryDMY4 ?s = None" by (rule try_none)
  have nd: "\<not> inClass Digit s1" "\<not> inClass Digit s2" using nw digit_word by auto
  have ns: "\<not> inClass sep3 (hd m)" "\<not> inClass sep3 (hd y)"
    using ne(4,5) sep_not_word digit_word by blast+
  have "reMatch True reDMY2 ?s = Some [d, [s1], m, [s2], y]"
    unfolding reDMY2_def
    using assms nd ne(2,3) ns by (intro reMatch_five) (simp_all add: digits_bounded)
  then have 2: "tryDMY2 ?s = Some (fullYear y @ [MINUS] @ padStart0 2 m @ [MINUS] @ padStart0 2 d)"
    by (simp add: tryDMY2_def)
  show ?thesis
    unfolding parseDate_firstMatch c using e(1) 1 2 by (simp add: fullYear_def century_def)
qed

lemma parseDate_month_two_digit_year:
  assumes "digits 1 2 d" "map_of months (toLowerCase mon) = Some mm" "digits 2 2 y"
    "inClass sep2 s1" "inClass sep2 s2"
  shows "parseDate (d @ [s1] @ mon @ [s2] @ y) =
         Some (century y @ y @ [MINUS] @ mm @ [MINUS] @ padStart0 2 d)"
proof -
  let ?s = "d @ [s1] @ mon @ [s2] @ y"
  note mon = month_text [OF assms(2)]
  have ne: "d \<noteq> []" "y \<noteq> []" "isDigit (hd y)" "mon \<noteq> []"
    using digits_hd [OF assms(1)] digits_hd [OF assms(3)] mon(3) by auto
  have hm: "isWord (hd mon)" using mon(2) ne(4) by (cases mon) simp_all
  have w: "list_all isWord d" "list_all isWord y" using assms(1,3) digits_word by blast+
  have nw: "\<not> isWord s1" "\<not> isWord s2" using assms(4,5) sep_not_word by blast+
  have e: "?s \<noteq> []" "isWord (hd ?s)" "isWord (last ?s)"
    using date_text_ends [OF w(1) ne(1) w(2) ne(2), of s1 mon s2] by blast+
  have c: "trim (stripQuotes (trim ?s)) = ?s" using e by (rule cleaned_word)
  have nb: "\<not> bounded (Digit, 1, Some 2) mon" "\<not> bounded (Digit, 4, Some 4) y"
    using mon(3) assms(3) by (simp_all add: digits_def bounded_def)
  have "reMatch True reDMY4 ?s = None"
    unfolding reDMY4_def using w mon(2) nw nb by (intro five_none) simp_all
  then have 1: "tryDMY4 ?s = None" by (rule try_none)
  have "reMatch True reDMY2 ?s = None"
    unfolding reDMY2_def using w mon(2) nw nb by (intro five_none) simp_all
  then have 2: "tryDMY2 ?s = None" by (rule try_none)
  have "\<not> isWhiteSpace s1" using assms(4) by (auto simp: sep2_def isWhiteSpace_def)
  then have "reMatch True reDMonY4sp (d @ s1 # (mon @ [s2] @ y)) = None"
    using assms(1) nw(1) by (intro spaced_none)
  then have 3: "tryDMonY4 reDMonY4sp ?s = None" by (simp add: try_none)
  have "reMatch True reDMonY4 ?s = None"
    unfolding reDMonY4_def using w mon(2) nw nb by (intro five_none) simp_all
  then have 4: "tryDMonY4 reDMonY4 ?s = None" by (rule try_none)
  have nd: "\<not> inClass Digit s1" "\<not> inClass WordChar s2" using nw digit_word by auto
  have ns: "\<not> inClass sep2 (hd mon)" "\<not> inClass sep2 (hd y)"
    using hm ne(3) sep_not_word digit_word by blast+
  have "reMatch True reDMonY2 ?s = Some [d, [s1], mon, [s2], y]"
    unfolding reDMonY2_def
    using assms(1,3,4,5) mon(1) nd ne(2,4) ns by (intro reMatch_five) (simp_all add: digits_bounded)
  then have 5: "tryDMonY2 ?s = Some (fullYear y @ [MINUS] @ mm @ [MINUS] @ padStart0 2 d)"
    using assms(2) by (simp add: tryDMonY2_def)
  show ?thesis
    unfolding parseDate_firstMatch c using e(1) 1 2 3 4 5 by (simp add: fullYear_def century_def)
qed

lemma months_monthNumber: "map_of months (toLowerCase mon) = monthNumber mon"
  by (simp add: monthNumber_def months_def monthNames_def twoDigits_def padStart0_def decimal.simps)

lemma class_predicates:
  "inClass Digit = isDigit" "inClass WordChar = isWord" "inClass Space = isWhiteSpace"
  "inClass sep3 = isDateSep" "inClass sep2 = isMonthSep" "inClass (OneOf [MINUS]) = isDash"
  by (rule ext, auto simp: sep3_def sep2_def isDateSep_def isMonthSep_def isDash_def)+

lemma date_patterns_separated:
  "separated reDMY4" "separated reDMY2" "separated reDMonY4sp" "separated reDMonY4"
  "separated reDMonY2" "separated reISO"
  using digit_not_ws word_not_space(1) sep_not_word digit_word
  by (auto simp: reDMY4_def reDMY2_def reDMonY4sp_def reDMonY4_def reDMonY2_def reISO_def one_def
      isDigit_def)

lemma reMatch_runs:
  assumes "separated [(A, la, ha), (S, ls, hs), (B, lb, hb), (S', ls', hs'), (C, lc, hc)]"
  shows "reMatch True [(A, la, ha), (S, ls, hs), (B, lb, hb), (S', ls', hs'), (C, lc, hc)] s =
     (case runs [inClass A, inClass S, inClass B, inClass S'] s of
        [a, x, b, y, c] \<Rightarrow>
          if bounded (A, la, ha) a \<and> bounded (S, ls, hs) x \<and> bounded (B, lb, hb) b \<and>
             bounded (S', ls', hs') y \<and> bounded (C, lc, hc) c
          then Some [a, x, b, y, c] else None
      | _ \<Rightarrow> None)"
  by (simp only: reMatch_munch [OF assms] munch_five)

lemma bounded_run:
  "bounded (cls, lo, hi) (takeWhile (inClass cls) s) \<longleftrightarrow>
   lo \<le> length (takeWhile (inClass cls) s) \<and>
   (case hi of None \<Rightarrow> True | Some h \<Rightarrow> length (takeWhile (inClass cls) s) \<le> h)"
  by (rule bounded_takeWhile)

lemma length_one: "Suc 0 \<le> n \<and> n \<le> Suc 0 \<longleftrightarrow> n = Suc 0"
  by auto

lemma tryDMY4_numericDate: "tryDMY4 s = numericDate 4 s"
proof -
  define a where "a = takeWhile isDigit s"
  define r1 where "r1 = dropWhile isDigit s"
  define x where "x = takeWhile isDateSep r1"
  define r2 where "r2 = dropWhile isDateSep r1"
  define b where "b = takeWhile isDigit r2"
  define r3 where "r3 = dropWhile isDigit r2"
  define y where "y = takeWhile isDateSep r3"
  define c where "c = dropWhile isDateSep r3"
  have r: "runs [isDigit, isDateSep, isDigit, isDateSep] s = [a, x, b, y, c]"
    by (simp add: a_def r1_def x_def r2_def b_def r3_def y_def c_def)
  have bs: "bounded (sep3, 1, Some 1) x \<longleftrightarrow> length x = 1" "bounded (sep3, 1, Some 1) y \<longleftrightarrow> length y = 1"
    unfolding x_def y_def class_predicates(4) [symmetric] by (simp_all add: bounded_run length_one)
  have m: "reMatch True reDMY4 s =
      (if digits 1 2 a \<and> length x = 1 \<and> digits 1 2 b \<and> length y = 1 \<and> digits 4 4 c
       then Some [a, x, b, y, c] else None)"
    using date_patterns_separated(1) unfolding reDMY4_def one_def
    by (simp only: reMatch_runs class_predicates r list.case bs digits_bounded)
  show ?thesis unfolding tryDMY4_def numericDate_def m r by simp
qed

lemma tryDMY2_numericDate: "tryDMY2 s = numericDate 2 s"
proof -
  define a where "a = takeWhile isDigit s"
  define r1 where "r1 = dropWhile isDigit s"
  define x where "x = takeWhile isDateSep r1"
  define r2 where "r2 = dropWhile isDateSep r1"
  define b where "b = takeWhile isDigit r2"
  define r3 where "r3 = dropWhile isDigit r2"
  define y where "y = takeWhile isDateSep r3"
  define c where "c = dropWhile isDateSep r3"
  have r: "runs [isDigit, isDateSep, isDigit, isDateSep] s = [a, x, b, y, c]"
    by (simp add: a_def r1_def x_def r2_def b_def r3_def y_def c_def)
  have bs: "bounded (sep3, 1, Some 1) x \<longleftrightarrow> length x = 1" "bounded (sep3, 1, Some 1) y \<longleftrightarrow> length y = 1"
    unfolding x_def y_def class_predicates(4) [symmetric] by (simp_all add: bounded_run length_one)
  have m: "reMatch True reDMY2 s =
      (if digits 1 2 a \<and> length x = 1 \<and> digits 1 2 b \<and> length y = 1 \<and> digits 2 2 c
       then Some [a, x, b, y, c] else None)"
    using date_patterns_separated(2) unfolding reDMY2_def one_def
    by (simp only: reMatch_runs class_predicates r list.case bs digits_bounded)
  show ?thesis unfolding tryDMY2_def numericDate_def m r by (simp add: fullYear_def century_def)
qed

lemma tryDMonY4sp_monthDate: "tryDMonY4 reDMonY4sp s = monthDate isWhiteSpace False 4 s"
proof -
  define a where "a = takeWhile isDigit s"
  define r1 where "r1 = dropWhile isDigit s"
  define x where "x = takeWhile isWhiteSpace r1"
  define r2 where "r2 = dropWhile isWhiteSpace r1"
  define b where "b = takeWhile isWord r2"
  define r3 where "r3 = dropWhile isWord r2"
  define y where "y = takeWhile isWhiteSpace r3"
  define c where "c = dropWhile isWhiteSpace r3"
  have r: "runs [isDigit, isWhiteSpace, isWord, isWhiteSpace] s = [a, x, b, y, c]"
    by (simp add: a_def r1_def x_def r2_def b_def r3_def y_def c_def)
  have bs: "bounded (Space, 1, None) x \<longleftrightarrow> x \<noteq> []" "bounded (Space, 1, None) y \<longleftrightarrow> y \<noteq> []"
    unfolding x_def y_def class_predicates(3) [symmetric]
    by (simp_all add: bounded_run Suc_le_eq)
  have bw: "bounded (WordChar, 3, Some 3) b \<longleftrightarrow> length b = 3"
    unfolding b_def class_predicates(2) [symmetric] by (auto simp: bounded_run)
  have m: "reMatch True reDMonY4sp s =
      (if digits 1 2 a \<and> x \<noteq> [] \<and> length b = 3 \<and> y \<noteq> [] \<and> digits 4 4 c
       then Some [a, x, b, y, c] else None)"
    using date_patterns_separated(3) unfolding reDMonY4sp_def
    by (simp only: reMatch_runs class_predicates r list.case bs bw digits_bounded)
  show ?thesis unfolding tryDMonY4_def monthDate_def m r
    by (auto simp: months_monthNumber split: option.splits)
qed

lemma month_runs:
  fixes s :: jsstring
  defines "a \<equiv> takeWhile isDigit s"
    and "x \<equiv> takeWhile isMonthSep (dropWhile isDigit s)"
    and "b \<equiv> takeWhile isWord (dropWhile isMonthSep (dropWhile isDigit s))"
    and "y \<equiv> takeWhile isMonthSep (dropWhile isWord (dropWhile isMonthSep (dropWhile isDigit s)))"
    and "c \<equiv> dropWhile isMonthSep (dropWhile isWord (dropWhile isMonthSep (dropWhile isDigit s)))"
  shows "runs [isDigit, isMonthSep, isWord, isMonthSep] s = [a, x, b, y, c]"
    and "bounded (sep2, 1, Some 1) x \<longleftrightarrow> length x = 1"
    and "bounded (sep2, 1, Some 1) y \<longleftrightarrow> length y = 1"
    and "bounded (WordChar, 3, Some 3) b \<longleftrightarrow> length b = 3"
proof -
  show "runs [isDigit, isMonthSep, isWord, isMonthSep] s = [a, x, b, y, c]"
    by (simp add: a_def x_def b_def y_def c_def)
  show "bounded (sep2, 1, Some 1) x \<longleftrightarrow> length x = 1" "bounded (sep2, 1, Some 1) y \<longleftrightarrow> length y = 1"
    unfolding x_def y_def class_predicates(5) [symmetric] by (simp_all add: bounded_run length_one)
  show "bounded (WordChar, 3, Some 3) b \<longleftrightarrow> length b = 3"
    unfolding b_def class_predicates(2) [symmetric] by (auto simp: bounded_run)
qed

lemma tryDMonY4_monthDate: "tryDMonY4 reDMonY4 s = monthDate isMonthSep True 4 s"
proof -
  note r = month_runs [of s]
  have m: "reMatch True reDMonY4 s =
      (case runs [isDigit, isMonthSep, isWord, isMonthSep] s of
         [a, x, b, y, c] \<Rightarrow>
           if digits 1 2 a \<and> length x = 1 \<and> length b = 3 \<and> length y = 1 \<and> digits 4 4 c
           then Some [a, x, b, y, c] else None
       | _ \<Rightarrow> None)"
    using date_patterns_separated(4) unfolding reDMonY4_def one_def
    by (simp only: reMatch_runs class_predicates r list.case digits_bounded)
  show ?thesis unfolding tryDMonY4_def monthDate_def m r(1)
    by (auto simp: months_monthNumber split: option.splits)
qed

lemma tryDMonY2_monthDate: "tryDMonY2 s = monthDate isMonthSep True 2 s"
proof -
  note r = month_runs [of s]
  have m: "reMatch True reDMonY2 s =
      (case runs [isDigit, isMonthSep, isWord, isMonthSep] s of
         [a, x, b, y, c] \<Rightarrow>
           if digits 1 2 a \<and> length x = 1 \<and> length b = 3 \<and> length y = 1 \<and> digits 2 2 c
           then Some [a, x, b, y, c] else None
       | _ \<Rightarrow> None)"
    using date_patterns_separated(5) unfolding reDMonY2_def one_def
    by (simp only: reMatch_runs class_predicates r list.case digits_bounded)
  show ?thesis unfolding tryDMonY2_def monthDate_def m r(1)
    by (auto simp: months_monthNumber fullYear_def century_def split: option.splits)
qed

lemma tryISO_isoDate: "tryISO s = isoDate s"
proof -
  define a where "a = takeWhile isDigit s"
  define r1 where "r1 = dropWhile isDigit s"
  define x where "x = takeWhile isDash r1"
  define r2 where "r2 = dropWhile isDash r1"
  define b where "b = takeWhile isDigit r2"
  define r3 where "r3 = dropWhile isDigit r2"
  define y where "y = takeWhile isDash r3"
  define c where "c = dropWhile isDash r3"
  have r: "runs [isDigit, isDash, isDigit, isDash] s = [a, x, b, y, c]"
    by (simp add: a_def r1_def x_def r2_def b_def r3_def y_def c_def)
  have bs: "bounded (OneOf [MINUS], 1, Some 1) x \<longleftrightarrow> length x = 1"
    "bounded (OneOf [MINUS], 1, Some 1) y \<longleftrightarrow> length y = 1"
    unfolding x_def y_def class_predicates(6) [symmetric] by (simp_all add: bounded_run length_one)
  have m: "reMatch True reISO s =
      (if digits 4 4 a \<and> length x = 1 \<and> digits 2 2 b \<and> length y = 1 \<and> digits 2 2 c
       then Some [a, x, b, y, c] else None)"
    using date_patterns_separated(6) unfolding reISO_def one_def
    by (simp only: reMatch_runs class_predicates r list.case bs digits_bounded)
  show ?thesis unfolding tryISO_def isoDate_def m r by simp
qed

lemma parseDate_dateFormats:
  "parseDate s =
     (if s = [] \<or> cleanedDate s = [] then None else firstMatch dateFormats (cleanedDate s))"
proof -
  have "[tryDMY4, tryDMY2, tryDMonY4 reDMonY4sp, tryDMonY4 reDMonY4, tryDMonY2, tryISO] = dateFormats"
    unfolding dateFormats_def
    using tryDMY4_numericDate tryDMY2_numericDate tryDMonY4sp_monthDate tryDMonY4_monthDate
      tryDMonY2_monthDate tryISO_isoDate by auto
  then show ?thesis by (simp only: parseDate_firstMatch cleanedDate_def stripQuotes_withoutQuotes)
qed

section \<open>Descriptions\<close>

lemma replaceAll_no_match: "\<not> occurs p s \<Longrightarrow> replaceAll_loop p r 0 s = s"
  by (induction s) auto

lemma replaceAll_skip:
  "k \<le> length s \<Longrightarrow> replaceAll_loop p r k s = replaceAll_loop p r 0 (drop k s)"
proof (induction s arbitrary: k)
  case Nil then show ?case by simp
next
  case (Cons c cs)
  then show ?case by (cases k) simp_all
qed

lemma reSpaces_match:
  "reMatch False reSpaces s =
     (if takeWhile isWhiteSpace s = [] then None else Some [takeWhile isWhiteSpace s])"
proof -
  have "take (length (takeWhile isWhiteSpace s)) s = takeWhile isWhiteSpace s"
    by (metis append_eq_conv_conj takeWhile_dropWhile_id)
  moreover have "inClass Space = isWhiteSpace" by (rule ext) simp
  ultimately show ?thesis
    by (simp add: reSpaces_def Let_def reTry.simps)
qed

lemma collapse_Nil: "replaceAll reSpaces [SPACE] [] = []"
  by (simp add: replaceAll_def reSpaces_match)

lemma collapse_Cons:
  "replaceAll reSpaces [SPACE] (c # cs) =
     (if isWhiteSpace c then SPACE # replaceAll reSpaces [SPACE] (dropWhile isWhiteSpace cs)
      else c # replaceAll reSpaces [SPACE] cs)"
proof (cases "isWhiteSpace c")
  case False
  then show ?thesis by (simp add: replaceAll_def reSpaces_match)
next
  case True
  let ?n = "length (takeWhile isWhiteSpace cs)"
  have "?n \<le> length cs" by (rule length_takeWhile_le)
  then have "replaceAll_loop reSpaces [SPACE] ?n cs = replaceAll_loop reSpaces [SPACE] 0 (drop ?n cs)"
    by (rule replaceAll_skip)
  moreover have "drop ?n cs = dropWhile isWhiteSpace cs"
    by (metis append_eq_conv_conj takeWhile_dropWhile_id)
  ultimately show ?thesis using True by (simp add: replaceAll_def reSpaces_match)
qed

lemma collapsed_collapse: "collapsed (replaceAll reSpaces [SPACE] s)"
proof (induction s rule: length_induct)
  case (1 s)
  show ?case
  proof (cases s)
    case Nil then show ?thesis by (simp add: collapse_Nil)
  next
    case (Cons c cs)
    show ?thesis
    proof (cases "isWhiteSpace c")
      case False
      have "collapsed (replaceAll reSpaces [SPACE] cs)" using 1 Cons by simp
      then show ?thesis using Cons False by (simp add: collapse_Cons)
    next
      case True
      let ?d = "dropWhile isWhiteSpace cs"
      have "length ?d < length s" using Cons by (simp add: length_dropWhile_le le_imp_less_Suc)
      then have c: "collapsed (replaceAll reSpaces [SPACE] ?d)" using 1 by simp
      have h: "case replaceAll reSpaces [SPACE] ?d of [] \<Rightarrow> True | d # ds \<Rightarrow> \<not> isWhiteSpace d"
      proof (cases ?d)
        case Nil then show ?thesis by (simp only: collapse_Nil) simp
      next
        case (Cons d ds)
        then have "\<not> isWhiteSpace d" using hd_dropWhile [of isWhiteSpace cs] by simp
        then show ?thesis by (simp only: Cons collapse_Cons) simp
      qed
      have ws: "isWhiteSpace SPACE" by (simp add: isWhiteSpace_def)
      show ?thesis using Cons True c h ws by (simp add: collapse_Cons)
    qed
  qed
qed

lemma collapse_collapsed: "collapsed s \<Longrightarrow> replaceAll reSpaces [SPACE] s = s"
proof (induction s)
  case Nil show ?case by (simp add: collapse_Nil)
next
  case (Cons c cs)
  show ?case
  proof (cases "isWhiteSpace c")
    case False then show ?thesis using Cons by (simp add: collapse_Cons)
  next
    case True
    then have "dropWhile isWhiteSpace cs = cs" using Cons.prems by (cases cs) simp_all
    then show ?thesis using True Cons by (simp add: collapse_Cons)
  qed
qed

lemma collapsed_suffix: "collapsed (a @ b) \<Longrightarrow> collapsed b"
  by (induction a) simp_all

lemma collapsed_prefix: "collapsed (a @ b) \<Longrightarrow> collapsed a"
proof (induction a)
  case Nil show ?case by simp
next
  case (Cons c a)
  then show ?case by (cases a) (auto split: if_splits)
qed

lemma collapsed_trim: "collapsed s \<Longrightarrow> collapsed (trim s)"
proof -
  assume s: "collapsed s"
  let ?d = "dropWhile isWhiteSpace s"
  have "collapsed (takeWhile isWhiteSpace s @ ?d)" using s by simp
  then have d: "collapsed ?d" by (rule collapsed_suffix)
  have "?d = trim s @ rev (takeWhile isWhiteSpace (rev ?d))"
  proof -
    have "rev (dropWhile isWhiteSpace (rev ?d)) @ rev (takeWhile isWhiteSpace (rev ?d)) =
          rev (takeWhile isWhiteSpace (rev ?d) @ dropWhile isWhiteSpace (rev ?d))"
      by (simp only: rev_append)
    also have "\<dots> = ?d" by (simp only: takeWhile_dropWhile_id rev_rev_ident)
    finally show ?thesis by (simp only: trim_def)
  qed
  then have "collapsed (trim s @ rev (takeWhile isWhiteSpace (rev ?d)))" using d by simp
  then show ?thesis by (rule collapsed_prefix)
qed

lemma cleanDescription_collapsed: "collapsed (cleanDescription x)"
  by (simp add: cleanDescription_def Let_def collapsed_trim collapsed_collapse)

lemma cleanDescription_trimmed: "trim (cleanDescription x) = cleanDescription x"
  by (simp add: cleanDescription_def Let_def trim_idem)

lemma cleanDescription_fixed:
  assumes "collapsed y" "trim y = y" "\<not> hasNoise y"
  shows "cleanDescription y = y"
proof -
  have "\<not> occurs p y" if "p \<in> set noisePatterns" for p
    using assms(3) that by (auto simp: hasNoise_def list_ex_iff)
  then have "replaceAll p [] y = y" if "p \<in> set noisePatterns" for p
    using that by (simp add: replaceAll_def replaceAll_no_match)
  then have r: "replaceAll (reTransfer (js ''TO'')) [] y = y" "replaceAll (reTransfer (js ''BY'')) [] y = y"
    "replaceAll (reNoise (js ''UPI/DR/'')) [] y = y" "replaceAll (reNoise (js ''UPI/CR/'')) [] y = y"
    "replaceAll (reNoise (js ''/DR/'')) [] y = y" "replaceAll (reNoise (js ''/CR/'')) [] y = y"
    by (simp_all add: noisePatterns_def)
  show ?thesis
    unfolding cleanDescription_def Let_def r collapse_collapsed [OF assms(1)] assms(2) by simp
qed

section \<open>The claims\<close>

subsection \<open>The header locator\<close>

text \<open>
  Claim C1, amended. \<open>findHeaderRow\<close> looks at the first \<open>min 50 (length lines)\<close> lines
  and returns the first of them, counted from 0, whose lower-cased tokens hold a token
  with "date" but neither "statement" nor "open", a token with one of "debit", "credit",
  "balance", and a token with one of "description", "details", "particulars",
  "narration", together with its trimmed tokens; when no line of the window qualifies it
  returns line 0 and raises nothing. The words "withdrawal" and "deposit" of the claim are
  not among the amount words of the source: the counterexample is a header line with
  "Withdrawal" on line 1 that the locator passes over.
\<close>

theorem findHeaderRow_first_qualifying:
  "(i < min 50 (length lines) \<and> qualifies amountWords (lines ! i) \<and>
      (\<forall>j<i. \<not> qualifies amountWords (lines ! j))
    \<longrightarrow> findHeaderRow lines = Inr (int i, headerTokens (lines ! i))) \<and>
   (lines \<noteq> [] \<and> (\<forall>j < min 50 (length lines). \<not> qualifies amountWords (lines ! j))
    \<longrightarrow> findHeaderRow lines = Inr (0, headerTokens (lines ! 0)))"
proof (intro conjI impI)
  assume h: "i < min 50 (length lines) \<and> qualifies amountWords (lines ! i) \<and>
      (\<forall>j<i. \<not> qualifies amountWords (lines ! j))"
  let ?w = "take (min (length lines) 50) lines"
  have "findHeaderRow_loop 0 ?w = Some (int (0 + i), headerTokens (?w ! i))"
    using h by (intro fhr_loop_found) auto
  then show "findHeaderRow lines = Inr (int i, headerTokens (lines ! i))"
    using h by (simp add: findHeaderRow_def)
next
  assume h: "lines \<noteq> [] \<and> (\<forall>j < min 50 (length lines). \<not> qualifies amountWords (lines ! j))"
  let ?w = "take (min (length lines) 50) lines"
  have "findHeaderRow_loop 0 ?w = None"
    using h by (intro fhr_loop_none) auto
  then show "findHeaderRow lines = Inr (0, headerTokens (lines ! 0))"
    using h by (cases lines) (simp_all add: findHeaderRow_def headerTokens_def)
qed

theorem findHeaderRow_first_qualifying_witness:
  "findHeaderRow [js ''Statement'', js ''Date'' @ [TAB] @ js ''Narration'' @ [TAB] @ js ''Debit'']
     = Inr (1, [js ''Date'', js ''Narration'', js ''Debit'']) \<and>
   findHeaderRow [js ''Statement'', js ''x''] = Inr (0, [js ''Statement''])"
  using findHeaderRow_first_qualifying [of 1 "[js ''Statement'', js ''Date'' @ [TAB] @ js ''Narration'' @ [TAB] @ js ''Debit'']"]
    findHeaderRow_first_qualifying [of 0 "[js ''Statement'', js ''x'']"]
  by (simp add: header_sample_eval less_Suc_eq)

theorem findHeaderRow_claimed_counterexample:
  "qualifies claimedAmountWords (js ''Date'' @ [TAB] @ js ''Narration'' @ [TAB] @ js ''Withdrawal'') \<and>
   \<not> qualifies claimedAmountWords (js ''Statement'') \<and>
   findHeaderRow [js ''Statement'', js ''Date'' @ [TAB] @ js ''Narration'' @ [TAB] @ js ''Withdrawal'']
     = Inr (0, [js ''Statement''])"
  by (simp add: header_sample_eval findHeaderRow_def hasDate_def hasDebit_def hasDescription_def requiredColumns_def descriptionColumns_def)

subsection \<open>Rejected rows\<close>

text \<open>
  Claim C2. \<open>normalizeTransaction\<close> returns \<open>null\<close> exactly when the resolved date text or
  the resolved description text is empty. Otherwise it returns a transaction whose date and
  value date are what \<open>parseDate\<close> makes of the texts (absent when they do not parse, the
  value date also when its text is empty), whose description is the cleaned text and whose
  debit, credit and balance are what \<open>parseAmount\<close> makes of the cells. The loop of
  \<open>parseTSV\<close> goes on to the next line with its list unchanged after \<open>null\<close> and with the
  transaction appended to its list otherwise, and it returns the list at the end of the
  lines. \<open>parseAmount\<close> never gives NaN and gives 0 for a text that is not a number.
\<close>

theorem normalizeTransaction_rejection:
  "(normalizeTransaction e raw headers = None \<longleftrightarrow>
      orEmpty (cell raw headers dateNames) = [] \<or> orEmpty (cell raw headers descNames) = []) \<and>
   (orEmpty (cell raw headers dateNames) \<noteq> [] \<and> orEmpty (cell raw headers descNames) \<noteq> [] \<longrightarrow>
      (\<exists>t. normalizeTransaction e raw headers = Some t \<and>
           id' t = generateId e \<and>
           date t = parseDate (orEmpty (cell raw headers dateNames)) \<and>
           valueDate t = (if orEmpty (cell raw headers valueDateNames) = [] then None
                          else parseDate (orEmpty (cell raw headers valueDateNames))) \<and>
           description t = cleanDescription (orEmpty (cell raw headers descNames)) \<and>
           reference t = orEmpty (cell raw headers refNames) \<and>
           debit t = parseAmount (cell raw headers debitNames) \<and>
           credit t = parseAmount (cell raw headers creditNames) \<and>
           balance t = parseAmount (cell raw headers balanceNames))) \<and>
   (normalizeTransaction (env (length acc)) (rawOf headers line) headers = None \<longrightarrow>
      parseRows env headers acc (line # rest) = parseRows env headers acc rest) \<and>
   (normalizeTransaction (env (length acc)) (rawOf headers line) headers = Some t' \<longrightarrow>
      parseRows env headers acc (line # rest) = parseRows env headers (acc @ [t']) rest) \<and>
   parseRows env headers acc [] = acc \<and>
   parseAmount v \<noteq> NaN \<and>
   (parseFloat (amountText s) = NaN \<longrightarrow> parseAmount (Some s) = Num 0) \<and>
   normalizeTransaction e [(js ''Description'', js ''Shop''), (js ''Date'' @ [8490], js ''1/1/2024'')]
     [js ''Date'' @ [8490], js ''Description''] = None \<and>
   normalizeTransaction e [(js ''Description'', js ''Shop''), (js ''DATE'' @ [304], js ''1/1/2024'')]
     [js ''DATE'' @ [304], js ''Description''] = None"
proof -
  have "normalizeTransaction e [(js ''Description'', js ''Shop''), (js ''Date'' @ [8490], js ''1/1/2024'')]
     [js ''Date'' @ [8490], js ''Description''] = None"
    by (simp add: normalizeTransaction_cases string_eval key_eval)
  moreover have "normalizeTransaction e [(js ''Description'', js ''Shop''), (js ''DATE'' @ [304], js ''1/1/2024'')]
     [js ''DATE'' @ [304], js ''Description''] = None"
    by (simp add: normalizeTransaction_cases string_eval key_eval)
  moreover have "parseFloat (amountText s) = NaN \<longrightarrow> parseAmount (Some s) = Num 0"
    by (simp add: parseAmount_pipeline numberOrZero_def)
  moreover have "normalizeTransaction (env (length acc)) (rawOf headers line) headers = None \<longrightarrow>
      parseRows env headers acc (line # rest) = parseRows env headers acc rest"
    by (simp only: parseRows_step) simp
  moreover have "normalizeTransaction (env (length acc)) (rawOf headers line) headers = Some t' \<longrightarrow>
      parseRows env headers acc (line # rest) = parseRows env headers (acc @ [t']) rest"
    using parseRows_emit by blast
  moreover have "parseRows env headers acc [] = acc" by simp
  ultimately show ?thesis
    by (simp add: normalizeTransaction_cases parseAmount_not_NaN del: parseRows.simps)
qed

theorem normalizeTransaction_rejection_witness:
  "map_option date (normalizeTransaction (1, []) rawSample headersSample) = Some None \<and>
   map_option valueDate (normalizeTransaction (1, []) rawSample headersSample) = Some None \<and>
   map_option debit (normalizeTransaction (1, []) rawSample headersSample) = Some (Num 0) \<and>
   normalizeTransaction (1, []) [] headersSample = None \<and>
   parseFloat (amountText (js ''abc'')) = NaN \<and>
   parseRows (constEnv (1, [])) (js ''Date'' # headersSample) [] [js ''x''] = [] \<and>
   map date (parseRows (constEnv (1, [])) headersSample [] [rowSample]) = [None] \<and>
   map debit (parseRows (constEnv (1, [])) headersSample [] [rowSample]) = [Num 0] \<and>
   map description (parseRows (constEnv (1, [])) headersSample [] [rowSample]) = [js ''Shop'']"
proof -
  have n: "parseFloat (amountText (js ''abc'')) = NaN"
    by (simp add: amountText_def withoutSymbols_def withoutQuotes_def string_eval number_eval)
  have a: "parseAmount (Some (js ''abc'')) = Num 0"
    using normalizeTransaction_rejection
      [where e = "(1, [])" and raw = "[]" and headers = "[]" and env = "constEnv (1, [])" and acc = "[]"
        and line = "[]" and rest = "[]" and v = None and s = "js ''abc''"] n
    by blast
  obtain t where t: "normalizeTransaction (1, []) rawSample headersSample = Some t"
      "date t = parseDate (js ''someday'')" "valueDate t = parseDate (js ''soon'')"
      "debit t = parseAmount (Some (js ''abc''))"
      "description t = cleanDescription (js ''Shop'')"
    using normalizeTransaction_rejection
      [where e = "(1, [])" and raw = rawSample and headers = headersSample and env = "constEnv (1, [])" and acc = "[]"
        and line = "[]" and rest = "[]" and v = None and s = "[]"]
    by (auto simp: rawSample_cells orEmpty_def)
  have r: "normalizeTransaction (1, []) [] headersSample = None"
    using normalizeTransaction_rejection
      [where e = "(1, [])" and raw = "[]" and headers = headersSample and env = "constEnv (1, [])" and acc = "[]"
        and line = "[]" and rest = "[]" and v = None and s = "[]"]
    by (simp add: rawSample_cells orEmpty_def)
  have "normalizeTransaction (constEnv (1, []) (length [])) (rawOf (js ''Date'' # headersSample) (js ''x''))
          (js ''Date'' # headersSample) = None"
    using normalizeTransaction_rejection
      [where raw = "rawOf (js ''Date'' # headersSample) (js ''x'')" and headers = "js ''Date'' # headersSample"
        and e = "constEnv (1, []) (length [])" and env = "constEnv (1, [])" and acc = "[]"
        and line = "[]" and rest = "[]" and v = None and s = "[]"]
    by (simp add: headersSample_def rawOf_def parseTabSeparatedLine_def padValues_def nthOpt_def
        assign_def string_eval key_eval)
  then have p: "parseRows (constEnv (1, [])) (js ''Date'' # headersSample) [] [js ''x''] = []"
    using normalizeTransaction_rejection
      [where env = "constEnv (1, [])" and acc = "[]" and headers = "js ''Date'' # headersSample"
        and line = "js ''x''" and rest = "[]" and e = "(1, [])" and raw = "[]" and v = None and s = "[]"]
    by (simp del: parseRows.simps add: parseRows.simps(1))
  have "normalizeTransaction (constEnv (1, []) (length [])) (rawOf headersSample rowSample) headersSample = Some t"
    using t(1) by (simp add: rawOf_rowSample constEnv_def)
  then have q: "parseRows (constEnv (1, [])) headersSample [] [rowSample] = [t]"
    using normalizeTransaction_rejection
      [where env = "constEnv (1, [])" and acc = "[]" and headers = headersSample
        and line = rowSample and rest = "[]" and e = "(1, [])" and raw = "[]" and v = None and s = "[]"
        and t' = t]
    by (simp del: parseRows.simps add: parseRows.simps(1))
  have c: "cleanDescription (js ''Shop'') = js ''Shop''"
    by (simp add: string_eval regex_eval clean_eval)
  show ?thesis using t a r n p q c unparseable_dates by simp
qed

subsection \<open>The date formats\<close>

text \<open>
  Claim C3. \<open>parseDate\<close> returns what the first of the six formats of the specification,
  in their order, gives on the cleaned text, and the absent marker when none of them
  accepts it. A numeric date with a year of two digits, and a date with a month
  abbreviation and a year of two digits, get the year 19YY when YY is above 50 and 20YY
  otherwise. The three values of the claim hold, as do one value for each of the other
  formats, one for a quoted text and one for a month name that does not exist.
\<close>

theorem parseDate_formats:
  "parseDate s =
     (if s = [] \<or> cleanedDate s = [] then None else firstMatch dateFormats (cleanedDate s)) \<and>
   parseDate (js ''01/04/2024'') = Some (js ''2024-04-01'') \<and>
   parseDate (js ''01-Jan-24'') = Some (js ''2024-01-01'') \<and>
   parseDate (js ''15/03/99'') = Some (js ''1999-03-15'') \<and>
   parseDate (js ''1 jan   2024'') = Some (js ''2024-01-01'') \<and>
   parseDate (js ''15/DEC/1999'') = Some (js ''1999-12-15'') \<and>
   parseDate (js ''2024-02-30'') = Some (js ''2024-02-30'') \<and>
   parseDate (js '' '' @ [DQUOTE] @ js ''1.4.50 '' @ [DQUOTE]) = Some (js ''2050-04-01'') \<and>
   parseDate (js ''01 Foo 2024'') = None \<and>
   (digits 1 2 d \<and> digits 1 2 m \<and> digits 2 2 y \<and> inClass sep3 s1 \<and> inClass sep3 s2 \<longrightarrow>
      parseDate (d @ [s1] @ m @ [s2] @ y) =
        Some (century y @ y @ [MINUS] @ padStart0 2 m @ [MINUS] @ padStart0 2 d)) \<and>
   (digits 1 2 d \<and> map_of months (toLowerCase mon) = Some mm \<and> digits 2 2 y \<and>
    inClass sep2 s1 \<and> inClass sep2 s2 \<longrightarrow>
      parseDate (d @ [s1] @ mon @ [s2] @ y) =
        Some (century y @ y @ [MINUS] @ mm @ [MINUS] @ padStart0 2 d)) \<and>
   (list_all (\<lambda>f. f (cleanedDate s) = None) dateFormats \<longrightarrow> parseDate s = None) \<and>
   (reMatch True reDMY4 (cleanedDate s) = None \<and> reMatch True reDMY2 (cleanedDate s) = None \<and>
    reMatch True reDMonY4sp (cleanedDate s) = None \<and> reMatch True reDMonY4 (cleanedDate s) = None \<and>
    reMatch True reDMonY2 (cleanedDate s) = None \<and> reMatch True reISO (cleanedDate s) = None \<longrightarrow>
      parseDate s = None)"
proof -
  have 0: "parseDate s =
     (if s = [] \<or> cleanedDate s = [] then None else firstMatch dateFormats (cleanedDate s))"
    by (rule parseDate_dateFormats)
  have 1: "parseDate (js ''01/04/2024'') = Some (js ''2024-04-01'')"
    by (simp add: string_eval regex_eval date_eval)
  have 2: "parseDate (js ''01-Jan-24'') = Some (js ''2024-01-01'')"
    by (simp add: string_eval regex_eval date_eval)
  have 3: "parseDate (js ''15/03/99'') = Some (js ''1999-03-15'')"
    by (simp add: string_eval regex_eval date_eval)
  have 4: "parseDate (js ''1 jan   2024'') = Some (js ''2024-01-01'')"
    by (simp add: string_eval regex_eval date_eval)
  have 5: "parseDate (js ''15/DEC/1999'') = Some (js ''1999-12-15'')"
    by (simp add: string_eval regex_eval date_eval)
  have 6: "parseDate (js ''2024-02-30'') = Some (js ''2024-02-30'')"
    by (simp add: string_eval regex_eval date_eval)
  have 7: "parseDate (js '' '' @ [DQUOTE] @ js ''1.4.50 '' @ [DQUOTE]) = Some (js ''2050-04-01'')"
    by (simp add: string_eval regex_eval date_eval)
  have 8: "parseDate (js ''01 Foo 2024'') = None"
    by (simp add: string_eval regex_eval date_eval)
  have 9: "parseDate s = None" if "list_all (\<lambda>f. f (cleanedDate s) = None) dateFormats"
    using that unfolding 0 by (simp add: dateFormats_def)
  have 10: "parseDate s = None"
    if "reMatch True reDMY4 (cleanedDate s) = None" "reMatch True reDMY2 (cleanedDate s) = None"
      "reMatch True reDMonY4sp (cleanedDate s) = None" "reMatch True reDMonY4 (cleanedDate s) = None"
      "reMatch True reDMonY2 (cleanedDate s) = None" "reMatch True reISO (cleanedDate s) = None"
    using that by (simp add: parseDate_firstMatch cleanedDate_def stripQuotes_withoutQuotes try_none)
  show ?thesis
    using 0 1 2 3 4 5 6 7 8 9 10 parseDate_two_digit_year parseDate_month_two_digit_year by blast
qed

theorem parseDate_formats_witness:
  "digits 1 2 (js ''15'') \<and> digits 1 2 (js ''03'') \<and> digits 2 2 (js ''99'') \<and> inClass sep3 SLASH \<and>
   parseDate (js ''15'' @ [SLASH] @ js ''03'' @ [SLASH] @ js ''99'') = Some (js ''1999-03-15'') \<and>
   map_of months (toLowerCase (js ''Jan'')) = Some (js ''01'') \<and> inClass sep2 MINUS \<and>
   parseDate (js ''1'' @ [MINUS] @ js ''Jan'' @ [MINUS] @ js ''24'') = Some (js ''2024-01-01'') \<and>
   reMatch True reDMY4 (cleanedDate (js ''someday'')) = None \<and>
   reMatch True reISO (cleanedDate (js ''someday'')) = None \<and>
   list_all (\<lambda>f. f (cleanedDate (js ''someday'')) = None) dateFormats \<and>
   parseDate (js ''someday'') = None \<and>
   monthDate isMonthSep True 4 (js ''1-Feb-2024'') = Some (js ''2024-02-01'') \<and>
   firstMatch dateFormats (js ''1-Feb-2024'') = Some (js ''2024-02-01'') \<and>
   parseDate (js ''1-Feb-2024'') = Some (js ''2024-02-01'')"
proof -
  have n: "reMatch True reDMY4 (cleanedDate (js ''someday'')) = None"
    "reMatch True reDMY2 (cleanedDate (js ''someday'')) = None"
    "reMatch True reDMonY4sp (cleanedDate (js ''someday'')) = None"
    "reMatch True reDMonY4 (cleanedDate (js ''someday'')) = None"
    "reMatch True reDMonY2 (cleanedDate (js ''someday'')) = None"
    "reMatch True reISO (cleanedDate (js ''someday'')) = None"
    by (simp_all add: cleanedDate_def withoutQuotes_def string_eval regex_eval date_eval)
  have h: "digits 1 2 (js ''15'')" "digits 1 2 (js ''03'')" "digits 2 2 (js ''99'')" "digits 1 2 (js ''1'')"
    "digits 2 2 (js ''24'')" "inClass sep3 SLASH" "inClass sep2 MINUS"
    "map_of months (toLowerCase (js ''Jan'')) = Some (js ''01'')"
    by (simp_all add: digits_def sep3_def sep2_def months_def toLowerCase_def char_eval)
  have c: "cleanedDate (js ''someday'') = js ''someday''" "cleanedDate (js ''1-Feb-2024'') = js ''1-Feb-2024''"
    by (simp_all add: cleanedDate_def withoutQuotes_def string_eval)
  have f: "list_all (\<lambda>f. f (js ''someday'') = None) dateFormats"
    by (simp add: dateFormats_def numericDate_def monthDate_def isoDate_def digits_def
        isDateSep_def isMonthSep_def isDash_def char_eval)
  have g: "numericDate 4 (js ''1-Feb-2024'') = None" "numericDate 2 (js ''1-Feb-2024'') = None"
    "monthDate isWhiteSpace False 4 (js ''1-Feb-2024'') = None"
    "monthDate isMonthSep True 4 (js ''1-Feb-2024'') = Some (js ''2024-02-01'')"
    by (simp_all add: numericDate_def monthDate_def digits_def monthNumber_def monthNames_def
        twoDigits_def decimal.simps padStart0_def toLowerCase_def
        isDateSep_def isMonthSep_def char_eval)
  then have fm: "firstMatch dateFormats (js ''1-Feb-2024'') = Some (js ''2024-02-01'')"
    by (simp add: dateFormats_def)
  have "parseDate (js ''someday'') = None"
    using parseDate_formats [where s = "js ''someday''" and d = "[]" and m = "[]" and y = "[]"
        and ?s1.0 = 0 and ?s2.0 = 0 and mon = "[]" and mm = "[]"] n by blast
  moreover have "parseDate (js ''15'' @ [SLASH] @ js ''03'' @ [SLASH] @ js ''99'') = Some (js ''1999-03-15'')"
    using parseDate_formats [where s = "js ''someday''" and d = "js ''15''" and m = "js ''03''"
        and y = "js ''99''" and ?s1.0 = SLASH and ?s2.0 = SLASH and mon = "[]" and mm = "[]"] h
    by (simp add: century_def padStart0_def digitsValue_def)
  moreover have "parseDate (js ''1'' @ [MINUS] @ js ''Jan'' @ [MINUS] @ js ''24'') = Some (js ''2024-01-01'')"
    using parseDate_formats [where s = "js ''someday''" and d = "js ''1''" and m = "[]"
        and y = "js ''24''" and ?s1.0 = MINUS and ?s2.0 = MINUS and mon = "js ''Jan''" and mm = "js ''01''"] h
    by (simp add: century_def padStart0_def digitsValue_def)
  moreover have "parseDate (js ''1-Feb-2024'') = Some (js ''2024-02-01'')"
    using parseDate_formats [where s = "js ''1-Feb-2024''" and d = "[]" and m = "[]" and y = "[]"
        and ?s1.0 = 0 and ?s2.0 = 0 and mon = "[]" and mm = "[]"] c(2) fm
    by simp
  ultimately show ?thesis using n h c f g fm by simp
qed

subsection \<open>parseAmount\<close>



subsection \<open>The row tokenizer\<close>

text \<open>
  Claim C5. The fields that \<open>parseTabSeparatedLine\<close> gives are the pieces of the line
  between its tabs outside quotes, each with its quote characters removed and trimmed. So
  there is one field more than the line has tabs outside quotes, and the last field is
  pushed even when it is empty; no field holds a quote character and every field is
  trimmed; a line without quotes is split at its tabs; and a line that is one quoted text
  gives that text as its only field, trimmed, with the tabs inside it.
\<close>

theorem parseTabSeparatedLine_fields:
  "parseTabSeparatedLine line = map (\<lambda>f. trim (unquote f)) (rawFields False line) \<and>
   length (parseTabSeparatedLine line) = Suc (unquotedTabs False line) \<and>
   list_all (\<lambda>f. DQUOTE \<notin> set f \<and> trim f = f) (parseTabSeparatedLine line) \<and>
   (DQUOTE \<notin> set line \<longrightarrow> parseTabSeparatedLine line = map trim (split_on TAB line)) \<and>
   (DQUOTE \<notin> set w \<longrightarrow> parseTabSeparatedLine (DQUOTE # w @ [DQUOTE]) = [trim w])"
proof -
  have "map (\<lambda>f. trim (unquote f)) (rawFields False line) =
        trim (unquote (hd (rawFields False line))) #
        map (\<lambda>f. trim (unquote f)) (tl (rawFields False line))"
    using rawFields_nonempty [of False line] by (cases "rawFields False line") simp_all
  then have 0: "parseTabSeparatedLine line = map (\<lambda>f. trim (unquote f)) (rawFields False line)"
    by (simp add: parseTabSeparatedLine_def tsl_loop_rawFields [of "[]" "[]" False line])
  have 1: "length (parseTabSeparatedLine line) = Suc (unquotedTabs False line)"
    by (simp add: parseTabSeparatedLine_def tsl_loop_length)
  have "list_all (\<lambda>f. DQUOTE \<notin> set f) (parseTabSeparatedLine line)"
    unfolding parseTabSeparatedLine_def by (rule tsl_loop_noquote_fields) simp_all
  moreover have "list_all (\<lambda>f. trim f = f) (parseTabSeparatedLine line)"
    unfolding parseTabSeparatedLine_def by (rule tsl_loop_fields) (simp_all add: trim_idem)
  ultimately have 2: "list_all (\<lambda>f. DQUOTE \<notin> set f \<and> trim f = f) (parseTabSeparatedLine line)"
    by (simp add: list_all_iff)
  have 3: "parseTabSeparatedLine line = map trim (split_on TAB line)" if "DQUOTE \<notin> set line"
    using that by (simp add: parseTabSeparatedLine_def split_on_def tsl_loop_unquoted)
  have 4: "parseTabSeparatedLine (DQUOTE # w @ [DQUOTE]) = [trim w]" if "DQUOTE \<notin> set w"
    using tsl_loop_quoted [OF that, of "[]" "[]" "[]"] by (simp add: parseTabSeparatedLine_def)
  show ?thesis using 0 1 2 3 4 by blast
qed

theorem parseTabSeparatedLine_fields_witness:
  "parseTabSeparatedLine (DQUOTE # (js ''to'' @ [TAB] @ js ''pay '') @ [DQUOTE]) =
     [js ''to'' @ [TAB] @ js ''pay''] \<and>
   parseTabSeparatedLine (js ''a '' @ [TAB, TAB] @ js ''b'' @ [TAB]) = [js ''a'', [], js ''b'', []] \<and>
   length (parseTabSeparatedLine (js ''a '' @ [TAB, TAB] @ js ''b'' @ [TAB])) = 4 \<and>
   rawFields False (js ''a'' @ [TAB, DQUOTE] @ js ''b'' @ [TAB] @ js ''c'' @ [DQUOTE] @ js ''d '' @ [TAB] @ js ''e'') =
     [js ''a'', [DQUOTE] @ js ''b'' @ [TAB] @ js ''c'' @ [DQUOTE] @ js ''d '', js ''e''] \<and>
   parseTabSeparatedLine
     (js ''a'' @ [TAB, DQUOTE] @ js ''b'' @ [TAB] @ js ''c'' @ [DQUOTE] @ js ''d '' @ [TAB] @ js ''e'') =
     [js ''a'', js ''b'' @ [TAB] @ js ''cd'', js ''e'']"
  using parseTabSeparatedLine_fields
    [of "js ''a '' @ [TAB, TAB] @ js ''b'' @ [TAB]" "js ''to'' @ [TAB] @ js ''pay ''"]
    parseTabSeparatedLine_fields
    [of "js ''a'' @ [TAB, DQUOTE] @ js ''b'' @ [TAB] @ js ''c'' @ [DQUOTE] @ js ''d '' @ [TAB] @ js ''e''" "[]"]
  by (simp add: split_on_def trim_def isWhiteSpace_def unquote_def Let_def)

subsection \<open>Cleaning a description twice\<close>

text \<open>
  Claim C6, amended. Cleaning a cleaned description again changes nothing when the cleaned
  description holds no match of a noise pattern. Removing a match can bring the pieces of
  a new match together, which the single pass of every pattern leaves in the result: the
  counterexample \<open>/DR//CR/1/1/\<close> is cleaned to \<open>/DR/1/\<close>, and that to the empty text.
\<close>

theorem cleanDescription_idempotent_without_noise:
  "\<not> hasNoise (cleanDescription x) \<longrightarrow> cleanDescription (cleanDescription x) = cleanDescription x"
  using cleanDescription_fixed [OF cleanDescription_collapsed cleanDescription_trimmed] by blast

theorem cleanDescription_idempotent_without_noise_witness:
  "\<not> hasNoise (cleanDescription (js ''UPI/DR/12/SHOP  A '')) \<and>
   cleanDescription (js ''UPI/DR/12/SHOP  A '') = js ''SHOP A'' \<and>
   cleanDescription (cleanDescription (js ''UPI/DR/12/SHOP  A '')) = js ''SHOP A''"
proof -
  have 1: "cleanDescription (js ''UPI/DR/12/SHOP  A '') = js ''SHOP A''"
    by (simp add: string_eval regex_eval clean_eval)
  have 2: "\<not> hasNoise (js ''SHOP A'')"
    by (simp add: hasNoise_def noisePatterns_def string_eval regex_eval clean_eval)
  show ?thesis
    using cleanDescription_idempotent_without_noise [of "js ''UPI/DR/12/SHOP  A ''"] 2
    unfolding 1 by simp
qed

theorem cleanDescription_idempotent_counterexample:
  "cleanDescription (cleanDescription (js ''/DR//CR/1/1/'')) \<noteq> cleanDescription (js ''/DR//CR/1/1/'')"
proof -
  have 1: "cleanDescription (js ''/DR//CR/1/1/'') = js ''/DR/1/''"
    by (simp add: string_eval regex_eval clean_eval)
  have 2: "cleanDescription (js ''/DR/1/'') = []"
    by (simp add: string_eval regex_eval clean_eval)
  show ?thesis unfolding 1 2 by simp
qed

subsection \<open>Determinism of parseTSV\<close>

text \<open>
  Claim C7, amended. Two runs of \<open>parseTSV\<close> on the same text fail with the same error or
  return lists of the same length that agree in every field but \<open>id\<close>; the id of
  transaction number \<open>n\<close> is made from the clock and the random number that \<open>generateId\<close>
  reads for it. The lists themselves differ as soon as the clock differs: the
  counterexample parses one statement under two clocks.
\<close>

theorem parseTSV_same_apart_from_id:
  "map_sum (\<lambda>err. err) (map withoutId) (parseTSV env1 content) =
   map_sum (\<lambda>err. err) (map withoutId) (parseTSV env2 content) \<and>
   (parseTSV env1 content = Inr ts \<longrightarrow> map id' ts = map (\<lambda>n. generateId (env1 n)) [0..<length ts])"
proof -
  have 1: "map withoutId (parseRows env1 headers [] rest) = map withoutId (parseRows env2 headers [] rest)"
    for headers rest by (rule parseRows_env) simp
  have 2: "map id' (parseRows env1 headers [] rest) =
           map (\<lambda>n. generateId (env1 n)) [0..<length (parseRows env1 headers [] rest)]"
    for headers rest by (rule parseRows_ids) simp
  show ?thesis
    using 1 2 by (auto simp: parseTSV_cases Let_def split: sum.splits prod.splits)
qed

theorem parseTSV_same_apart_from_id_witness:
  "map_sum (\<lambda>err. err) (map withoutId) (parseTSV (constEnv (1, [])) statementNegative) =
   map_sum (\<lambda>err. err) (map withoutId) (parseTSV (constEnv (2, [])) statementNegative) \<and>
   map_sum (\<lambda>err. err) (map id') (parseTSV (constEnv (1, [])) statementNegative) = Inr [js ''txn_1_'']"
  using parseTSV_same_apart_from_id [of "constEnv (1, [])" statementNegative "constEnv (2, [])"
      "[\<lparr>id' = generateId (constEnv (1, []) 0), date = Some (js ''2024-01-01''), valueDate = None,
           description = js ''Shop'', reference = [], debit = Num (- 5), credit = Num 0,
           balance = Num 0, amount = Num 5, type' = Debit, category = None, subcategory = None,
           notes' = []\<rparr>]"]
  by (simp add: statementNegative_parse generateId_def constEnv_def decimal.simps)

theorem parseTSV_id_counterexample:
  "parseTSV (constEnv (1, [])) statementNegative \<noteq> parseTSV (constEnv (2, [])) statementNegative"
  by (simp add: statementNegative_parse generateId_def constEnv_def decimal.simps)

subsection \<open>Too few lines\<close>

text \<open>
  Claim C8. When the text, after \<open>normalizeMultiLineFields\<close> and \<open>trim\<close>, has fewer than
  two lines, \<open>parseTSV\<close> throws its error instead of returning a list.
\<close>

theorem parseTSV_too_few_lines:
  "length (split_on NEWLINE (trim (normalizeMultiLineFields content))) < 2 \<Longrightarrow>
   parseTSV env content = Inl (Error (js ''Invalid TSV file: No data rows found''))"
  by (simp add: parseTSV_def Let_def)

theorem parseTSV_too_few_lines_witness:
  "length (split_on NEWLINE (trim (normalizeMultiLineFields (js ''Date '')))) < 2 \<and>
   parseTSV (\<lambda>n. (0, [])) (js ''Date '') = Inl (Error (js ''Invalid TSV file: No data rows found''))"
proof -
  have h: "length (split_on NEWLINE (trim (normalizeMultiLineFields (js ''Date '')))) < 2"
    by (simp add: split_on_def normalizeMultiLineFields_def trim_def isWhiteSpace_def)
  show ?thesis using h parseTSV_too_few_lines [OF h] by simp
qed

subsection \<open>The sign of debit and credit\<close>

text \<open>
  Claim C9, amended. In every transaction that \<open>parseTSV\<close> returns, debit and credit are
  numbers, never NaN; they are what \<open>parseAmount\<close> makes of their cells, which is not
  negative unless the text of the cell, cleaned as above, starts with a minus sign; so
  for a text without any minus sign all debits and credits are non-negative. A cell \<open>-5\<close>
  gives the debit \<open>-5\<close>: the counterexample.
\<close>

theorem debit_credit_sign:
  "(parseTSV env content = Inr ts \<and> MINUS \<notin> set content \<longrightarrow>
      list_all (\<lambda>t. nonNegative (debit t) \<and> nonNegative (credit t)) ts) \<and>
   (parseTSV env content = Inr ts \<longrightarrow> list_all (\<lambda>t. debit t \<noteq> NaN \<and> credit t \<noteq> NaN) ts) \<and>
   (normalizeTransaction e raw headers = Some t \<longrightarrow>
      debit t = parseAmount (cell raw headers debitNames) \<and>
      credit t = parseAmount (cell raw headers creditNames)) \<and>
   (leadingMinus (amountText v) \<or> nonNegative (parseAmount (Some v)))"
proof -
  have 1: "list_all (\<lambda>t. nonNegative (debit t) \<and> nonNegative (credit t)) ts"
    if p: "parseTSV env content = Inr ts" and m: "MINUS \<notin> set content"
  proof (rule parseTSV_list_all [OF p])
    fix e line headers t
    assume l: "set line \<subseteq> set content \<union> {SPACE}"
      and n: "normalizeTransaction e (rawOf headers line) headers = Some t"
    have "MINUS \<notin> set line" using l m by auto
    then have "nonNegative (parseAmount (cell (rawOf headers line) headers names))" for names
      by (intro cell_amount_nonneg) simp_all
    then show "nonNegative (debit t) \<and> nonNegative (credit t)"
      using n by (auto simp: normalizeTransaction_cases split: if_splits)
  qed
  have 2: "list_all (\<lambda>t. debit t \<noteq> NaN \<and> credit t \<noteq> NaN) ts" if p: "parseTSV env content = Inr ts"
  proof (rule parseTSV_list_all [OF p])
    fix e line headers t
    assume "normalizeTransaction e (rawOf headers line) headers = Some t"
    then show "debit t \<noteq> NaN \<and> credit t \<noteq> NaN"
      by (auto simp: normalizeTransaction_cases parseAmount_not_NaN split: if_splits)
  qed
  have 3: "debit t = parseAmount (cell raw headers debitNames) \<and>
           credit t = parseAmount (cell raw headers creditNames)"
    if "normalizeTransaction e raw headers = Some t"
    using that by (auto simp: normalizeTransaction_cases split: if_splits)
  have 4: "leadingMinus (amountText v) \<or> nonNegative (parseAmount (Some v))"
    using parseAmount_sign by blast
  show ?thesis using 1 2 3 4 by blast
qed

theorem debit_credit_sign_witness:
  "MINUS \<notin> set statementPlain \<and>
   (case parseTSV (constEnv (1, [])) statementPlain of
      Inl err \<Rightarrow> False
    | Inr ts \<Rightarrow> list_all (\<lambda>t. nonNegative (debit t) \<and> nonNegative (credit t)) ts) \<and>
   nonNegative (parseAmount (Some (js ''5'')))"
proof -
  have m: "MINUS \<notin> set statementPlain" by (simp add: statementPlain_def)
  obtain ts where ts: "parseTSV (constEnv (1, [])) statementPlain = Inr ts"
    using parseTSV_returns [OF statementPlain_lines] by blast
  have l: "\<not> leadingMinus (amountText (js ''5''))"
    by (simp add: leadingMinus_def amountText_def withoutSymbols_def withoutQuotes_def string_eval)
  show ?thesis
    using m ts l debit_credit_sign [of "constEnv (1, [])" statementPlain ts _ _ _ _ "js ''5''"]
    by simp
qed

theorem debit_credit_sign_counterexample:
  "map_sum (\<lambda>err. err) (map debit) (parseTSV (constEnv (1, [])) statementNegative) = Inr [Num (- 5)] \<and>
   \<not> nonNegative (Num (- 5))"
  by (simp add: statementNegative_parse)

subsection \<open>No calendar check\<close>



end
